theory Spec2Isabelle
  imports Main "HOL-Library.Char_ord" "HOL-Library.Sublist"
begin

section \<open>Bytes and the library functions the parser calls\<close>

text \<open>
  A Go \<open>[]byte\<close> is a \<open>string\<close> (a list of 8-bit \<open>char\<close>s); Go's \<open>int\<close> results
  (indices, byte counts) are \<open>int\<close>. The two-byte line terminator is \<open>CRLF\<close>.
\<close>

definition CRLF :: string where
  "CRLF = [CHR 0x0D, CHR 0x0A]"

text \<open>
  \<open>bytes.Index(s, sep)\<close>: the index of the first instance of \<open>sep\<close> in \<open>s\<close>, or \<open>-1\<close>
  when \<open>sep\<close> does not occur in \<open>s\<close>.
\<close>

fun Index :: "string \<Rightarrow> string \<Rightarrow> int" where
  "Index [] sep = (if sep = [] then 0 else - 1)"
| "Index (c # s) sep =
     (if take (length sep) (c # s) = sep then 0
      else (let i = Index s sep in if i < 0 then - 1 else i + 1))"

text \<open>
  \<open>bytes.Cut(s, sep)\<close>: slices \<open>s\<close> around the first instance of \<open>sep\<close>; when \<open>sep\<close> is
  absent it returns \<open>s, nil, false\<close>.
\<close>

definition Cut :: "string \<Rightarrow> string \<Rightarrow> string \<times> string \<times> bool" where
  "Cut s sep =
     (let i = Index s sep
      in if 0 \<le> i then (take (nat i) s, drop (nat i + length sep) s, True)
         else (s, [], False))"

text \<open>
  The standard library treats byte slices holding a byte \<open>\<ge> 0x80\<close> as UTF-8 and hands
  them to its Unicode tables: \<open>bytes.ToLower\<close> to \<open>Map(unicode.ToLower, s)\<close>,
  \<open>bytes.TrimSpace\<close> to \<open>TrimFunc(s, unicode.IsSpace)\<close>. Those tables are not part of the
  repository; they are parameters of the model, and every theorem holds for any value of
  them. On pure ASCII input both functions are modelled in full.
\<close>

record unicode =
  Map_ToLower :: "string \<Rightarrow> string"
  TrimFunc_IsSpace :: "string \<Rightarrow> string"

text \<open>
  A value for the two parameters, for the places where a theorem is evaluated on a concrete
  ASCII input, which never reaches them.
\<close>

definition U0 :: unicode where
  "U0 = \<lparr>Map_ToLower = (\<lambda>s. s), TrimFunc_IsSpace = (\<lambda>s. s)\<rparr>"

definition isASCII :: "char \<Rightarrow> bool" where
  "isASCII c = ((of_char c :: nat) < 128)"

definition asciiSpace :: "char \<Rightarrow> bool" where
  "asciiSpace c = (c = CHR 0x09 \<or> c = CHR 0x0A \<or> c = CHR 0x0B \<or> c = CHR 0x0C
                   \<or> c = CHR 0x0D \<or> c = CHR '' '')"

definition lowerByte :: "char \<Rightarrow> char" where
  "lowerByte c = (if CHR ''A'' \<le> c \<and> c \<le> CHR ''Z'' then char_of ((of_char c :: nat) + 32) else c)"

definition ToLower :: "unicode \<Rightarrow> string \<Rightarrow> string" where
  "ToLower U s = (if list_all isASCII s then map lowerByte s else Map_ToLower U s)"

text \<open>
  \<open>bytes.TrimSpace\<close>: skip ASCII white space from the front; a non-ASCII byte there sends
  the rest to the Unicode routine. Then skip ASCII white space from the back; a non-ASCII
  byte there sends the remaining window to the Unicode routine.
\<close>

definition TrimSpace :: "unicode \<Rightarrow> string \<Rightarrow> string" where
  "TrimSpace U s =
     (case dropWhile asciiSpace s of
        [] \<Rightarrow> []
      | c # t \<Rightarrow>
          if \<not> isASCII c then TrimFunc_IsSpace U (c # t)
          else (let w = rev (dropWhile asciiSpace (rev (c # t)))
                in if \<not> isASCII (last w) then TrimFunc_IsSpace U w else w))"

text \<open>\<open>bytes.TrimLeft(key, " ")\<close>: drop the leading spaces.\<close>

definition TrimLeft_space :: "string \<Rightarrow> string" where
  "TrimLeft_space s = dropWhile (\<lambda>c. c = CHR '' '') s"

section \<open>Errors\<close>

datatype WriterState = StateStatusPending | StateHeadersPending | StateBodyPending

datatype error =
    ERROR_PARSING_METHOD_IN_REQUEST_LINE
  | ERROR_PARSING_TARGET_IN_REQUEST_LINE
  | ERROR_PARSING_HTTP_VERSION_IN_REQUEST_LINE
  | ErrorInvalidMethod string
  | ErrorInvalidVersion string
  | ErrNoColon
  | ErrSpaceBeforeColon
  | ErrEmptyKey
  | ErrInvalidCharInKey
  | EOF
  | IOError string
  | NilDereference
  | CannotWriteStatusLine WriterState
  | CannotWriteHeaderLine WriterState
  | CannotWriteBody

section \<open>internal/headers: the header-field parser\<close>

type_synonym Headers = "string \<rightharpoonup> string"

definition NewHeaders :: Headers where
  "NewHeaders = Map.empty"

definition isTokenChar :: "char \<Rightarrow> bool" where
  "isTokenChar b =
     (if (CHR ''a'' \<le> b \<and> b \<le> CHR ''z'') \<or> (CHR ''0'' \<le> b \<and> b \<le> CHR ''9'') then True
      else if b \<in> {CHR ''!'', CHR ''#'', CHR ''$'', CHR ''%'', CHR ''&'', CHR 0x27, CHR ''*'',
                    CHR ''+'', CHR ''-'', CHR ''.'', CHR ''^'', CHR ''_'', CHR 0x60, CHR ''|'',
                    CHR ''~''} then True
      else False)"

text \<open>
  \<open>Headers.Parse\<close> mutates the map it is called on; the model returns the map after the
  call, then \<open>n\<close>, \<open>done\<close> and \<open>err\<close>.
\<close>

definition Parse :: "unicode \<Rightarrow> Headers \<Rightarrow> string \<Rightarrow> Headers \<times> int \<times> bool \<times> error option" where
  "Parse U h data =
     (let idx = Index data CRLF
      in if idx = - 1 then (h, 0, False, None)
         else if idx = 0 then (h, idx + 2, True, None)
         else
           (let header = take (nat idx) data
            in case Cut header '':'' of (key, remaining, found) \<Rightarrow>
                 if \<not> found then (h, 0, False, Some ErrNoColon)
                 else if length key = 0 then (h, 0, False, Some ErrEmptyKey)
                 else if last key = CHR '' '' then (h, 0, False, Some ErrSpaceBeforeColon)
                 else
                   (let val = TrimSpace U remaining;
                        key' = TrimLeft_space key;
                        normalizedKey = ToLower U key'
                    in if \<not> list_all isTokenChar normalizedKey
                       then (h, 0, False, Some ErrInvalidCharInKey)
                       else
                         (case h normalizedKey of
                            Some existingValue \<Rightarrow>
                              (h(normalizedKey \<mapsto> existingValue @ '', '' @ val), idx + 2, False, None)
                          | None \<Rightarrow> (h(normalizedKey \<mapsto> val), idx + 2, False, None)))))"

section \<open>internal/request: request line, state machine, driver\<close>

datatype parserState = requestStateInitialized | requestStateDone | requestStateParsingHeaders

record RequestLine =
  HttpVersion :: string
  RequestTarget :: string
  Method :: string

text \<open>The \<open>Headers\<close> field is a Go map value: \<open>None\<close> is the nil map of a fresh Request.\<close>

record Request =
  RequestLine :: RequestLine
  Headers :: "Headers option"
  state :: parserState

definition newRequest :: Request where
  "newRequest = \<lparr>RequestLine = \<lparr>HttpVersion = [], RequestTarget = [], Method = []\<rparr>,
                  Headers = None, state = requestStateInitialized\<rparr>"

text \<open>
  \<open>parseRequestLine\<close> returns the request line (nil on every path but success), the number
  of bytes parsed, the rest of the message, and the error.
\<close>

definition parseRequestLine :: "string \<Rightarrow> RequestLine option \<times> int \<times> string \<times> error option" where
  "parseRequestLine data =
     (case Cut data CRLF of (line, restOfMsg, found) \<Rightarrow>
        if \<not> found then (None, 0, data, None)
        else
          (let numBytesParsed = int (length line) + 2
           in case Cut line '' '' of (method, rest, found) \<Rightarrow>
                if \<not> found then (None, 0, data, Some ERROR_PARSING_METHOD_IN_REQUEST_LINE)
                else
                  (case Cut rest '' '' of (target, rest, found) \<Rightarrow>
                     if \<not> found then (None, 0, data, Some ERROR_PARSING_TARGET_IN_REQUEST_LINE)
                     else if rest \<noteq> ''HTTP/1.1'' then (None, 0, data, Some (ErrorInvalidVersion rest))
                     else
                       (case Cut rest ''/'' of (_, rest, found) \<Rightarrow>
                          if \<not> found
                          then (None, 0, data, Some ERROR_PARSING_HTTP_VERSION_IN_REQUEST_LINE)
                          else
                            (let version = rest
                             in if \<exists>char \<in> set method. char < CHR ''A'' \<or> char > CHR ''Z''
                                then (None, 0, data, Some (ErrorInvalidMethod method))
                                else (Some \<lparr>HttpVersion = version, RequestTarget = target,
                                            Method = method\<rparr>,
                                      numBytesParsed, restOfMsg, None))))))"

text \<open>
  \<open>parseSingle\<close> runs the sub-parser of the current state once. It returns the Request after
  the call (the receiver is mutated in place), the bytes consumed and the error.
\<close>

definition parseSingle :: "unicode \<Rightarrow> Request \<Rightarrow> string \<Rightarrow> Request \<times> int \<times> error option" where
  "parseSingle U r p =
     (case state r of
        requestStateInitialized \<Rightarrow>
          (case parseRequestLine p of (rlp, numBytesParsed, _, err) \<Rightarrow>
             if err \<noteq> None then (r, 0, err)
             else if numBytesParsed = 0 then (r, 0, None)
             else
               (case rlp of
                  None \<Rightarrow> (r, 0, Some NilDereference)
                | Some rl \<Rightarrow>
                    (r\<lparr>RequestLine := rl, state := requestStateParsingHeaders\<rparr>,
                     numBytesParsed, None)))
      | requestStateParsingHeaders \<Rightarrow>
          (let h = (case Headers r of None \<Rightarrow> NewHeaders | Some h \<Rightarrow> h)
           in case Parse U h p of (h', numBytesParsed, done, err) \<Rightarrow>
                (let r' = r\<lparr>Headers := Some h'\<rparr>
                 in if err \<noteq> None then (r', 0, err)
                    else if numBytesParsed = 0 then (r', 0, None)
                    else if done then (r'\<lparr>state := requestStateDone\<rparr>, numBytesParsed, None)
                    else (r', numBytesParsed, None)))
      | requestStateDone \<Rightarrow> (r, 0, None))"

text \<open>
  The loop of \<open>Request.parse\<close> adds the positive count of each step to
  \<open>totalBytesParsed\<close>; that no sub-parser reports a negative count is what makes it
  terminate.
\<close>

lemma Index_ge: "- 1 \<le> Index s sep"
  by (induction s) (auto simp: Let_def)

lemma parseRequestLine_nonneg: "parseRequestLine data = (rl, n, rest, e) \<Longrightarrow> 0 \<le> n"
  by (auto simp: parseRequestLine_def Let_def split: prod.splits if_splits)

lemma Parse_nonneg: "Parse U h data = (h', n, d, e) \<Longrightarrow> 0 \<le> n"
  using Index_ge[of data CRLF]
  by (auto simp: Parse_def Let_def split: prod.splits if_splits option.splits)

lemma parseSingle_nonneg: "parseSingle U r p = (r', n, e) \<Longrightarrow> 0 \<le> n"
  by (auto simp: parseSingle_def Let_def
           split: parserState.splits prod.splits if_splits option.splits
           dest: parseRequestLine_nonneg Parse_nonneg)

function parse_loop :: "unicode \<Rightarrow> Request \<Rightarrow> string \<Rightarrow> int \<Rightarrow> Request \<times> int \<times> error option" where
  "parse_loop U r p totalBytesParsed =
     (if state r = requestStateDone then (r, totalBytesParsed, None)
      else if int (length p) \<le> totalBytesParsed then (r, totalBytesParsed, None)
      else
        (case parseSingle U r (drop (nat totalBytesParsed) p) of (r', n, err) \<Rightarrow>
           if err \<noteq> None then (r', totalBytesParsed, err)
           else if n = 0 then (r', totalBytesParsed, None)
           else parse_loop U r' p (totalBytesParsed + n)))"
  by pat_completeness auto
termination
  apply (relation "measure (\<lambda>(U, r, p, t). nat (int (length p) - t))")
   apply simp
  apply (auto dest!: sym[of "(_, _)" "parseSingle _ _ _"] dest: parseSingle_nonneg)
  done

declare parse_loop.simps [simp del]

text \<open>\<open>Request.parse\<close>: the loop started with \<open>totalBytesParsed := 0\<close>.\<close>

definition parse :: "unicode \<Rightarrow> Request \<Rightarrow> string \<Rightarrow> Request \<times> int \<times> error option" where
  "parse U r p = parse_loop U r p 0"

text \<open>
  The byte source. An \<open>io.Reader\<close> is the list of the results its \<open>Read\<close> calls give, each
  the bytes copied into the 1024-byte chunk and the error returned with them; once the list
  is used up every further \<open>Read\<close> gives \<open>(0, io.EOF)\<close>. This covers every source that
  reaches end-of-stream. \<open>RequestFromReader\<close> returns \<open>Inl err\<close> for \<open>(nil, err)\<close> and
  \<open>Inr req\<close> for \<open>(&req, nil)\<close>.
\<close>

type_synonym reader = "(string \<times> error option) list"

fun reader_loop :: "unicode \<Rightarrow> Request \<Rightarrow> string \<Rightarrow> reader \<Rightarrow> error + Request" where
  "reader_loop U req buf [] =
     (if state req = requestStateDone then Inr req
      else Inr (req\<lparr>state := requestStateDone\<rparr>))"
| "reader_loop U req buf ((chunk, err) # reads) =
     (if state req = requestStateDone then Inr req
      else if err \<noteq> None \<and> err \<noteq> Some EOF then Inl (the err)
      else if length chunk = 0 \<and> err = Some EOF then Inr (req\<lparr>state := requestStateDone\<rparr>)
      else
        (let buf' = buf @ chunk
         in case parse U req buf' of (req', numBytesParsed, perr) \<Rightarrow>
              (case perr of
                 Some e \<Rightarrow> Inl e
               | None \<Rightarrow>
                   reader_loop U req'
                     (if 0 < numBytesParsed then drop (nat numBytesParsed) buf' else buf') reads)))"

definition RequestFromReader :: "unicode \<Rightarrow> reader \<Rightarrow> error + Request" where
  "RequestFromReader U reads = reader_loop U newRequest [] reads"

text \<open>
  The two readers of the test-suite. \<open>chunkReader\<close> hands out \<open>numBytesPerRead\<close> bytes per
  \<open>Read\<close> (at most the 1024 bytes of the driver's chunk), \<open>strings.NewReader\<close> as many as
  the chunk takes; both return a nil error with the bytes and \<open>(0, io.EOF)\<close> afterwards.
  With \<open>numBytesPerRead = 0\<close> the chunkReader returns \<open>(0, nil)\<close> for ever: that reader is
  outside the model, and the theorems about \<open>chunkReader\<close> ask for \<open>0 < numBytesPerRead\<close>.
\<close>

function chunksOf :: "nat \<Rightarrow> string \<Rightarrow> string list" where
  "chunksOf k data = (if data = [] \<or> k = 0 then [] else take k data # chunksOf k (drop k data))"
  by pat_completeness auto
termination
  by (relation "measure (\<lambda>(k, data). length data)") auto

declare chunksOf.simps [simp del]

definition chunkReader :: "string \<Rightarrow> nat \<Rightarrow> reader" where
  "chunkReader data numBytesPerRead =
     map (\<lambda>c. (c, None)) (chunksOf (min numBytesPerRead 1024) data)"

definition stringsReader :: "string \<Rightarrow> reader" where
  "stringsReader data = map (\<lambda>c. (c, None)) (chunksOf 1024 data)"

text \<open>
  The reads the driver makes before it meets \<open>(0, io.EOF)\<close>, and the bytes they deliver.
  A read may bring bytes together with \<open>io.EOF\<close>; the driver parses them and reads again.
\<close>

definition beforeEOF :: "reader \<Rightarrow> reader" where
  "beforeEOF reads = takeWhile (\<lambda>(chunk, err). \<not> (length chunk = 0 \<and> err = Some EOF)) reads"

definition delivered :: "reader \<Rightarrow> string" where
  "delivered reads = concat (map fst (beforeEOF reads))"

section \<open>internal/response: the response writer\<close>

text \<open>
  An \<open>io.Writer\<close> is a sink state \<open>'w\<close> with its \<open>Write\<close> method, which returns the sink
  after the call, the number of bytes written and the error. The method is a parameter:
  the theorems hold for every sink, failing or not.
\<close>

type_synonym 'w io_Writer = "'w \<Rightarrow> string \<Rightarrow> 'w \<times> int \<times> error option"

text \<open>\<open>fmt.Sprintf("%d", n)\<close>: the decimal digits, with a minus sign for a negative number.\<close>

fun digitsOf :: "nat \<Rightarrow> string" where
  "digitsOf n = (if n < 10 then [char_of (48 + n)]
                 else digitsOf (n div 10) @ [char_of (48 + n mod 10)])"

declare digitsOf.simps [simp del]

definition Sprintf_d :: "int \<Rightarrow> string" where
  "Sprintf_d i = (if i < 0 then CHR ''-'' # digitsOf (nat (- i)) else digitsOf (nat i))"

text \<open>
  response.go: the package-level \<open>WriteStatusLine\<close> and \<open>WriteHeaders\<close>. The status line
  the \<open>switch\<close> chooses is \<open>statusLineOf\<close>, the line \<open>fmt.Sprintf("%s: %s\r\n", k, v)\<close> of
  one header entry is \<open>headerLineOf\<close>.
\<close>

definition statusLineOf :: "int \<Rightarrow> string" where
  "statusLineOf statusCode =
     (if statusCode = 200 then ''HTTP/1.1 200 OK'' @ CRLF
      else if statusCode = 400 then ''HTTP/1.1 400 Bad Request'' @ CRLF
      else if statusCode = 500 then ''HTTP/1.1 500 Internal Server Error'' @ CRLF
      else ''HTTP/1.1 '' @ Sprintf_d statusCode @ '' '' @ CRLF)"

definition WriteStatusLine :: "'w io_Writer \<Rightarrow> 'w \<Rightarrow> int \<Rightarrow> 'w \<times> error option" where
  "WriteStatusLine wr w statusCode =
     (let statusLine = statusLineOf statusCode
      in case wr w statusLine of (w', n, err) \<Rightarrow> (w', err))"

text \<open>
  \<open>WriteHeaders\<close> ranges over a Go map, in an order the runtime chooses: the argument of
  the model is the list of the entries in the order the range yields them.
\<close>

definition headerLineOf :: "string \<times> string \<Rightarrow> string" where
  "headerLineOf kv = fst kv @ '': '' @ snd kv @ CRLF"

fun WriteHeaders :: "'w io_Writer \<Rightarrow> 'w \<Rightarrow> (string \<times> string) list \<Rightarrow> 'w \<times> error option" where
  "WriteHeaders wr w [] = (w, None)"
| "WriteHeaders wr w ((k, v) # kvs) =
     (let line = headerLineOf (k, v)
      in case wr w line of (w', n, err) \<Rightarrow>
           if err \<noteq> None then (w', err) else WriteHeaders wr w' kvs)"

text \<open>
  writer.go: the \<open>Writer\<close> and its three methods. Each returns the Writer after the call.
  The field \<open>state\<close> is \<open>stateW\<close> here, \<open>state\<close> being the field of the Request.
\<close>

record 'w Writer =
  writer :: 'w
  stateW :: WriterState


definition Writer_WriteStatusLine :: "'w io_Writer \<Rightarrow> 'w Writer \<Rightarrow> int \<Rightarrow> 'w Writer \<times> error option" where
  "Writer_WriteStatusLine wr W statusCode =
     (if stateW W \<noteq> StateStatusPending then (W, Some (CannotWriteStatusLine (stateW W)))
      else case WriteStatusLine wr (writer W) statusCode of (w', err) \<Rightarrow>
        if err \<noteq> None then (W\<lparr>writer := w'\<rparr>, err)
        else (W\<lparr>writer := w', stateW := StateHeadersPending\<rparr>, None))"

definition Writer_WriteHeaders ::
    "'w io_Writer \<Rightarrow> 'w Writer \<Rightarrow> (string \<times> string) list \<Rightarrow> 'w Writer \<times> error option" where
  "Writer_WriteHeaders wr W headers =
     (if stateW W \<noteq> StateHeadersPending then (W, Some (CannotWriteHeaderLine (stateW W)))
      else case WriteHeaders wr (writer W) headers of (w', err) \<Rightarrow>
        if err \<noteq> None then (W\<lparr>writer := w'\<rparr>, err)
        else case wr w' CRLF of (w'', n, err) \<Rightarrow>
          if err \<noteq> None then (W\<lparr>writer := w''\<rparr>, err)
          else (W\<lparr>writer := w'', stateW := StateBodyPending\<rparr>, None))"

definition Writer_WriteBody :: "'w io_Writer \<Rightarrow> 'w Writer \<Rightarrow> string \<Rightarrow> 'w Writer \<times> int \<times> error option" where
  "Writer_WriteBody wr W p =
     (if stateW W \<noteq> StateBodyPending then (W, 0, Some CannotWriteBody)
      else case wr (writer W) p of (w', n, err) \<Rightarrow> (W\<lparr>writer := w'\<rparr>, n, err))"

text \<open>
  A call sequence on one Writer, and its trace: for each call the state the Writer was in
  when the call was made, the call, and the error it returned.
\<close>

datatype call = CallWriteStatusLine int | CallWriteHeaders "(string \<times> string) list" | CallWriteBody string

fun exec :: "'w io_Writer \<Rightarrow> 'w Writer \<Rightarrow> call \<Rightarrow> 'w Writer \<times> error option" where
  "exec wr W (CallWriteStatusLine statusCode) = Writer_WriteStatusLine wr W statusCode"
| "exec wr W (CallWriteHeaders headers) = Writer_WriteHeaders wr W headers"
| "exec wr W (CallWriteBody p) = (case Writer_WriteBody wr W p of (W', n, err) \<Rightarrow> (W', err))"

fun run :: "'w io_Writer \<Rightarrow> 'w Writer \<Rightarrow> call list \<Rightarrow> (WriterState \<times> call \<times> error option) list" where
  "run wr W [] = []"
| "run wr W (c # cs) = (case exec wr W c of (W', err) \<Rightarrow> (stateW W, c, err) # run wr W' cs)"

text \<open>
  The Writers a call sequence goes through: the one before each call, and the last.
\<close>

fun states :: "'w io_Writer \<Rightarrow> 'w Writer \<Rightarrow> call list \<Rightarrow> 'w Writer list" where
  "states wr W [] = [W]"
| "states wr W (c # cs) = W # states wr (fst (exec wr W c)) cs"

text \<open>
  What reaches the sink. Any \<open>io.Writer\<close> can be observed through a log of its \<open>Write\<close>
  calls: \<open>logged wr\<close> behaves as \<open>wr\<close> does and appends to the log, for each call, the bytes
  it was handed and the error it returned. \<open>sinkLog\<close> reads the log of a Writer on such a
  sink.
\<close>

type_synonym writeLog = "(string \<times> error option) list"

definition logged :: "'w io_Writer \<Rightarrow> ('w \<times> writeLog) io_Writer" where
  "logged wr = (\<lambda>(w, log) p. case wr w p of (w', n, err) \<Rightarrow> ((w', log @ [(p, err)]), n, err))"

definition sinkLog :: "('w \<times> writeLog) Writer \<Rightarrow> writeLog" where
  "sinkLog W = snd (writer W)"

text \<open>The writes of a complete header block, each accepted: the header lines, then CRLF.\<close>

definition headerBlock :: "(string \<times> string) list \<Rightarrow> writeLog" where
  "headerBlock headers = map (\<lambda>line. (line, None)) (map headerLineOf headers @ [CRLF])"


section \<open>The streams of the scenarios and the words of the spec\<close>

text \<open>The streams of the scenarios A, C and F of the spec.\<close>

definition scenarioA :: string where
  "scenarioA = ''GET / HTTP/1.1'' @ CRLF @ ''Host: localhost:42069'' @ CRLF @ CRLF"

definition scenarioC :: string where
  "scenarioC = ''POST /x HTTP/1.1'' @ CRLF @ ''Content-Length: 5'' @ CRLF @ CRLF @ ''123456''"

definition scenarioF :: string where
  "scenarioF = ''GET / HTTP/1.1'' @ CRLF @ ''Host: localhost'' @ CRLF @ ''User-Age''"

text \<open>
  The words of the spec about repeated field names: the values \<open>v1 .. vN\<close> joined by
  \<open>", "\<close> in arrival order (\<open>joinComma\<close>); a valid field name, an ASCII token in any
  letter case (\<open>validName\<close>); a field value without a carriage return, beginning and
  ending with a visible ASCII byte when it is not empty (\<open>validValue\<close>); optional white
  space, any number of spaces and horizontal tabs (\<open>OWS\<close>); and the field line
  \<open>name ":" OWS value OWS CRLF\<close> of the wire format (\<open>fieldLine\<close>), valid for a key when
  its name lower-cases to the key (\<open>validField\<close>).
\<close>

fun joinComma :: "string list \<Rightarrow> string" where
  "joinComma [] = []"
| "joinComma [v] = v"
| "joinComma (v # w # vs) = v @ '', '' @ joinComma (w # vs)"

definition validName :: "string \<Rightarrow> bool" where
  "validName nm = (nm \<noteq> [] \<and> list_all isASCII nm \<and> list_all isTokenChar (map lowerByte nm))"

definition validValue :: "string \<Rightarrow> bool" where
  "validValue v = (CHR 0x0D \<notin> set v \<and>
     (v \<noteq> [] \<longrightarrow> isASCII (hd v) \<and> \<not> asciiSpace (hd v) \<and> isASCII (last v) \<and> \<not> asciiSpace (last v)))"

record field =
  fieldName :: string
  owsBefore :: string
  fieldValue :: string
  owsAfter :: string

definition OWS :: "string \<Rightarrow> bool" where
  "OWS s = list_all (\<lambda>c. c = CHR '' '' \<or> c = CHR 0x09) s"

definition fieldLine :: "field \<Rightarrow> string" where
  "fieldLine f = fieldName f @ '':'' @ owsBefore f @ fieldValue f @ owsAfter f @ CRLF"

definition validField :: "string \<Rightarrow> field \<Rightarrow> bool" where
  "validField key f =
     (validName (fieldName f) \<and> map lowerByte (fieldName f) = key \<and> OWS (owsBefore f)
      \<and> validValue (fieldValue f) \<and> OWS (owsAfter f))"

text \<open>
  In the header state \<open>parseSingle\<close> first replaces a nil header map by an empty one;
  \<open>touch\<close> is that step on its own.
\<close>

definition touch :: "Request \<Rightarrow> Request" where
  "touch r = (if state r = requestStateParsingHeaders \<and> Headers r = None
              then r\<lparr>Headers := Some NewHeaders\<rparr> else r)"

section \<open>Facts about \<open>Index\<close> and \<open>Cut\<close>\<close>

lemma take_eq_length: "take (length sep) xs = sep \<Longrightarrow> length sep \<le> length xs"
  by (drule arg_cong[where f = length]) simp

lemma take_append_le: "n \<le> length xs \<Longrightarrow> take n (xs @ ys) = take n xs"
  by simp

lemma Index_range: "0 \<le> Index s sep \<Longrightarrow> Index s sep + int (length sep) \<le> int (length s)"
proof (induction s)
  case Nil then show ?case by (auto split: if_splits)
next
  case (Cons c s)
  show ?case
  proof (cases "take (length sep) (c # s) = sep")
    case True
    then have "length sep \<le> length (c # s)"
      by (rule take_eq_length)
    with True show ?thesis by simp
  next
    case False
    with Cons show ?thesis by (auto simp: Let_def split: if_splits)
  qed
qed

lemma Index_found: "0 \<le> Index s sep \<Longrightarrow> s = take (nat (Index s sep)) s @ sep @ drop (nat (Index s sep) + length sep) s"
proof (induction s)
  case Nil then show ?case by (auto split: if_splits)
next
  case (Cons c s)
  show ?case
  proof (cases "take (length sep) (c # s) = sep")
    case True
    then have "c # s = sep @ drop (length sep) (c # s)"
      by (metis append_take_drop_id)
    moreover from True have "Index (c # s) sep = 0" by simp
    ultimately show ?thesis by (simp del: Index.simps)
  next
    case False
    with Cons.prems have i: "0 \<le> Index s sep" and e: "Index (c # s) sep = Index s sep + 1"
      by (auto simp: Let_def split: if_splits)
    have n: "nat (Index s sep + 1) = Suc (nat (Index s sep))" using i by simp
    show ?thesis using Cons.IH[OF i] by (simp add: e n del: Index.simps)
  qed
qed

lemma Index_absent: "Index s sep = - 1 \<Longrightarrow> s \<noteq> xs @ sep @ ys"
proof (induction s arbitrary: xs)
  case Nil then show ?case by (auto split: if_splits)
next
  case (Cons c s)
  from Cons.prems have t: "take (length sep) (c # s) \<noteq> sep" and i: "Index s sep = - 1"
    using Index_ge[of s sep] by (auto simp: Let_def split: if_splits)
  show ?case
  proof (cases xs)
    case Nil
    show ?thesis using t unfolding Nil by auto
  next
    case (Cons x xs')
    then show ?thesis using Cons.IH[OF i, of xs'] by auto
  qed
qed

lemma Index_append: "0 \<le> Index s sep \<Longrightarrow> Index (s @ q) sep = Index s sep"
proof (induction s)
  case Nil then show ?case by (cases q) (auto split: if_splits)
next
  case (Cons c s)
  show ?case
  proof (cases "take (length sep) (c # s) = sep")
    case True
    then have "length sep \<le> length (c # s)"
      by (rule take_eq_length)
    then have "take (length sep) ((c # s) @ q) = take (length sep) (c # s)"
      by (rule take_append_le)
    with True have "take (length sep) (c # s @ q) = sep" by simp
    with True show ?thesis by simp
  next
    case False
    with Cons.prems have i: "0 \<le> Index s sep" and e: "Index (c # s) sep = Index s sep + 1"
      by (auto simp: Let_def split: if_splits)
    from Index_range[OF i] i have "length sep \<le> length (c # s)" by simp
    then have "take (length sep) ((c # s) @ q) = take (length sep) (c # s)"
      by (rule take_append_le)
    with False have "take (length sep) (c # s @ q) \<noteq> sep" by simp
    then have "Index ((c # s) @ q) sep = Index (s @ q) sep + 1"
      using Cons.IH[OF i] i by (simp add: Let_def)
    then show ?thesis using Cons.IH[OF i] e by (simp del: Index.simps)
  qed
qed


lemma Index_none: "\<not> sublist sep s \<Longrightarrow> Index s sep = - 1"
proof -
  assume a: "\<not> sublist sep s"
  have "\<not> 0 \<le> Index s sep"
  proof
    assume "0 \<le> Index s sep"
    from Index_found[OF this] have "sublist sep s" unfolding sublist_def by blast
    with a show False by simp
  qed
  with Index_ge[of s sep] show ?thesis by simp
qed

lemma Index_absent_sublist: "Index s sep = - 1 \<Longrightarrow> \<not> sublist sep s"
  using Index_absent[of s sep] unfolding sublist_def by blast

lemma Cut_found:
  assumes "Cut s sep = (a, b, True)"
  shows "s = a @ sep @ b" and "int (length a) = Index s sep" and "0 \<le> Index s sep"
proof -
  from assms show i: "0 \<le> Index s sep" by (auto simp: Cut_def Let_def split: if_splits)
  from assms i have a: "a = take (nat (Index s sep)) s" and b: "b = drop (nat (Index s sep) + length sep) s"
    by (auto simp: Cut_def Let_def)
  from Index_found[OF i] a b show "s = a @ sep @ b" by simp
  from Index_range[OF i] i a show "int (length a) = Index s sep" by simp
qed

lemma Cut_not_found: "Cut s sep = (a, b, False) \<Longrightarrow> Index s sep = - 1"
  using Index_ge[of s sep] by (auto simp: Cut_def Let_def split: if_splits)

lemma length_CRLF [simp]: "length CRLF = 2"
  by (simp add: CRLF_def)

section \<open>Evaluation on concrete inputs\<close>

lemma lowerByte_upper:
  "lowerByte CHR ''A'' = CHR ''a''" "lowerByte CHR ''B'' = CHR ''b''" "lowerByte CHR ''C'' = CHR ''c''"
  "lowerByte CHR ''D'' = CHR ''d''" "lowerByte CHR ''E'' = CHR ''e''" "lowerByte CHR ''F'' = CHR ''f''"
  "lowerByte CHR ''G'' = CHR ''g''" "lowerByte CHR ''H'' = CHR ''h''" "lowerByte CHR ''I'' = CHR ''i''"
  "lowerByte CHR ''J'' = CHR ''j''" "lowerByte CHR ''K'' = CHR ''k''" "lowerByte CHR ''L'' = CHR ''l''"
  "lowerByte CHR ''M'' = CHR ''m''" "lowerByte CHR ''N'' = CHR ''n''" "lowerByte CHR ''O'' = CHR ''o''"
  "lowerByte CHR ''P'' = CHR ''p''" "lowerByte CHR ''Q'' = CHR ''q''" "lowerByte CHR ''R'' = CHR ''r''"
  "lowerByte CHR ''S'' = CHR ''s''" "lowerByte CHR ''T'' = CHR ''t''" "lowerByte CHR ''U'' = CHR ''u''"
  "lowerByte CHR ''V'' = CHR ''v''" "lowerByte CHR ''W'' = CHR ''w''" "lowerByte CHR ''X'' = CHR ''x''"
  "lowerByte CHR ''Y'' = CHR ''y''" "lowerByte CHR ''Z'' = CHR ''z''"
  by code_simp+

lemma lowerByte_other: "\<not> (CHR ''A'' \<le> c \<and> c \<le> CHR ''Z'') \<Longrightarrow> lowerByte c = c"
  by (auto simp: lowerByte_def)

lemmas eval_simps = CRLF_def Cut_def parseRequestLine_def Parse_def TrimSpace_def TrimLeft_space_def
  ToLower_def isASCII_def lowerByte_upper lowerByte_other less_eq_char_def less_char_def
  isTokenChar_def asciiSpace_def parseSingle_def NewHeaders_def newRequest_def Let_def

section \<open>Insufficient data is not an error\<close>

text \<open>
  C7. For every input slice in which CRLF does not occur, \<open>parseRequestLine\<close> returns a nil
  request line, zero bytes parsed, the input itself as the rest and a nil error, and
  \<open>Headers.Parse\<close> returns \<open>n = 0\<close>, \<open>done = false\<close> and a nil error and leaves the map as
  it was: a unit split across reads is reported as "need more data", not as malformed.
\<close>

theorem insufficient_data:
  assumes "\<not> sublist CRLF data"
  shows "parseRequestLine data = (None, 0, data, None) \<and> Parse U h data = (h, 0, False, None)"
  using Index_none[OF assms] by (simp add: parseRequestLine_def Cut_def Parse_def)

theorem insufficient_data_witness:
  "\<not> sublist CRLF ''Host: local''
   \<and> parseRequestLine ''Host: local'' = (None, 0, ''Host: local'', None)
   \<and> Parse U0 Map.empty ''Host: local'' = (Map.empty, 0, False, None)"
proof -
  have h: "\<not> sublist CRLF ''Host: local''"
    by (rule Index_absent_sublist) (simp add: CRLF_def)
  show ?thesis using h insufficient_data[OF h, of U0 Map.empty] by simp
qed

section \<open>A failing \<open>Headers.Parse\<close> changes nothing\<close>

text \<open>
  C9. Whenever \<open>Headers.Parse\<close> returns a non-nil error, the error is one of \<open>ErrNoColon\<close>,
  \<open>ErrEmptyKey\<close>, \<open>ErrSpaceBeforeColon\<close> and \<open>ErrInvalidCharInKey\<close>, the byte count is
  zero, and the header map after the call is the map before the call: no entry is
  inserted, modified or removed.
\<close>

theorem Parse_atomic_on_failure:
  "Parse U h data = (h', n, d, Some e) \<Longrightarrow>
     n = 0 \<and> h' = h \<and> e \<in> {ErrNoColon, ErrEmptyKey, ErrSpaceBeforeColon, ErrInvalidCharInKey}"
  by (auto simp: Parse_def Let_def split: prod.splits if_splits option.splits)

theorem Parse_atomic_on_failure_witness:
  "Parse U0 [''host'' \<mapsto> ''a''] (''Host localhost'' @ CRLF) =
     ([''host'' \<mapsto> ''a''], 0, False, Some ErrNoColon)
   \<and> (0::int) = 0 \<and> [''host'' \<mapsto> ''a''] = [''host'' \<mapsto> ''a'']
   \<and> ErrNoColon \<in> {ErrNoColon, ErrEmptyKey, ErrSpaceBeforeColon, ErrInvalidCharInKey}"
proof -
  have h: "Parse U0 [''host'' \<mapsto> ''a''] (''Host localhost'' @ CRLF) =
             ([''host'' \<mapsto> ''a''], 0, False, Some ErrNoColon)"
    by (simp add: eval_simps)
  show ?thesis using h Parse_atomic_on_failure[OF h] by simp
qed

section \<open>The byte count of \<open>Request.parse\<close>\<close>

lemma parseRequestLine_le:
  assumes "parseRequestLine data = (rl, n, rest, e)"
  shows "n \<le> int (length data)"
proof -
  obtain line restOfMsg found where c: "Cut data CRLF = (line, restOfMsg, found)"
    by (cases "Cut data CRLF") auto
  show ?thesis
  proof (cases found)
    case False
    with assms c show ?thesis by (simp add: parseRequestLine_def)
  next
    case True
    from c True have "Cut data CRLF = (line, restOfMsg, True)" by simp
    from Cut_found(1)[OF this] have "length data = length (line @ CRLF @ restOfMsg)" by simp
    then have "length data = length line + 2 + length restOfMsg" by simp
    then have "int (length line) + 2 \<le> int (length data)" by simp
    with assms c True show ?thesis
      by (auto simp: parseRequestLine_def Let_def split: prod.splits if_splits)
  qed
qed

lemma Parse_le:
  assumes "Parse U h data = (h', n, d, e)"
  shows "n \<le> int (length data)"
proof -
  have "Index data CRLF \<noteq> - 1 \<Longrightarrow> Index data CRLF + 2 \<le> int (length data)"
    using Index_range[of data CRLF] Index_ge[of data CRLF] by simp
  with assms show ?thesis
    by (auto simp: Parse_def Let_def split: prod.splits if_splits option.splits)
qed

lemma parseSingle_le: "parseSingle U r p = (r', n, e) \<Longrightarrow> n \<le> int (length p)"
  by (auto simp: parseSingle_def Let_def
           split: parserState.splits prod.splits if_splits option.splits
           dest: parseRequestLine_le Parse_le)

lemma parse_loop_stop:
  "state r = requestStateDone \<or> int (length p) \<le> t \<Longrightarrow> parse_loop U r p t = (r, t, None)"
  by (subst parse_loop.simps) auto

lemma parse_loop_step:
  "state r \<noteq> requestStateDone \<Longrightarrow> t < int (length p) \<Longrightarrow>
   parseSingle U r (drop (nat t) p) = (r1, m, err) \<Longrightarrow>
   parse_loop U r p t =
     (if err \<noteq> None then (r1, t, err)
      else if m = 0 then (r1, t, None)
      else parse_loop U r1 p (t + m))"
  by (subst parse_loop.simps) simp

lemma parse_loop_bounds:
  "0 \<le> t \<Longrightarrow> t \<le> int (length p) \<Longrightarrow> parse_loop U r p t = (r', n, e) \<Longrightarrow> t \<le> n \<and> n \<le> int (length p)"
proof (induction "nat (int (length p) - t)" arbitrary: r t rule: less_induct)
  case less
  show ?case
  proof (cases "state r = requestStateDone \<or> int (length p) \<le> t")
    case True
    from parse_loop_stop[OF True, of U] less.prems show ?thesis by simp
  next
    case False
    then have ns: "state r \<noteq> requestStateDone" and lt: "t < int (length p)" by auto
    obtain r1 m err where ps: "parseSingle U r (drop (nat t) p) = (r1, m, err)"
      by (cases "parseSingle U r (drop (nat t) p)") auto
    from parseSingle_nonneg[OF ps] parseSingle_le[OF ps] less.prems(1) lt
    have m: "0 \<le> m" "t + m \<le> int (length p)" by auto
    note step = parse_loop_step[OF ns lt ps]
    show ?thesis
    proof (cases "err \<noteq> None \<or> m = 0")
      case True
      with step less.prems show ?thesis by (auto split: if_splits)
    next
      case stepped: False
      with step less.prems(3) have rec: "parse_loop U r1 p (t + m) = (r', n, e)"
        by simp
      from stepped m lt have "nat (int (length p) - (t + m)) < nat (int (length p) - t)" by simp
      from less.hyps[OF this _ _ rec] m less.prems(1)
      have "t + m \<le> n \<and> n \<le> int (length p)" by simp
      with m show ?thesis by auto
    qed
  qed
qed

text \<open>
  C10. For every Request, in whatever parser state, and every input slice \<open>p\<close>,
  \<open>Request.parse\<close> returns a byte count \<open>n\<close> with \<open>0 \<le> n \<le> len(p)\<close>, with or without
  an error: the driver's \<open>buf[n:]\<close> is within bounds.
\<close>

theorem parse_consumed_in_bounds:
  "case parse U r p of (r', n, e) \<Rightarrow> 0 \<le> n \<and> n \<le> int (length p)"
proof -
  obtain r' n e where p: "parse U r p = (r', n, e)" by (cases "parse U r p") auto
  then have "parse_loop U r p 0 = (r', n, e)" by (simp add: parse_def)
  from parse_loop_bounds[OF _ _ this] p show ?thesis by simp
qed

theorem parse_consumed_in_bounds_witness:
  "(case parse U0 newRequest (''GET / HTTP/1.1'' @ CRLF @ ''Ho'') of
      (r', n, e) \<Rightarrow> 0 \<le> n \<and> n \<le> int (length (''GET / HTTP/1.1'' @ CRLF @ ''Ho'')))
   \<and> parse U0 newRequest (''GET / HTTP/1.1'' @ CRLF @ ''Ho'') =
       (\<lparr>RequestLine = \<lparr>HttpVersion = ''1.1'', RequestTarget = ''/'', Method = ''GET''\<rparr>,
         Headers = Some Map.empty, state = requestStateParsingHeaders\<rparr>, 16, None)"
  using parse_consumed_in_bounds[where U = U0 and r = newRequest and p = "''GET / HTTP/1.1'' @ CRLF @ ''Ho''"]
  by (simp add: parse_def parse_loop.simps eval_simps)

section \<open>The request line\<close>

lemma Index_char: "c \<notin> set xs \<Longrightarrow> Index (xs @ c # ys) [c] = int (length xs)"
  by (induction xs) (auto simp: Let_def)

lemma Cut_char: "c \<notin> set xs \<Longrightarrow> Cut (xs @ c # ys) [c] = (xs, ys, True)"
  by (simp add: Cut_def Index_char)

lemma Index_CRLF_first:
  "\<not> sublist CRLF line \<Longrightarrow> Index (line @ CRLF @ rest) CRLF = int (length line)"
proof (induction line)
  case Nil
  then show ?case by (cases rest) (simp_all add: CRLF_def)
next
  case (Cons c line)
  from Cons.prems have ns: "\<not> sublist CRLF line" and np: "\<not> prefix CRLF (c # line)"
    by (auto simp: sublist_Cons_right)
  have "take 2 (c # line @ CRLF @ rest) \<noteq> CRLF"
  proof
    assume t: "take 2 (c # line @ CRLF @ rest) = CRLF"
    show False
    proof (cases line)
      case Nil
      with t show False by (simp add: CRLF_def)
    next
      case (Cons d l)
      with t have "c # line = CRLF @ l" by (simp add: CRLF_def)
      with np show False by simp
    qed
  qed
  then show ?case using Cons.IH[OF ns] by (simp add: Let_def)
qed

lemma Cut_CRLF_first:
  "\<not> sublist CRLF line \<Longrightarrow> Cut (line @ CRLF @ rest) CRLF = (line, rest, True)"
  by (simp add: Cut_def Index_CRLF_first)

lemma parseRequestLine_split:
  assumes "Cut data CRLF = (line, restOfMsg, True)"
    and "Cut line '' '' = (method, rest1, True)"
    and "Cut rest1 '' '' = (target, version, True)"
  shows "parseRequestLine data =
           (if version \<noteq> ''HTTP/1.1'' then (None, 0, data, Some (ErrorInvalidVersion version))
            else if \<exists>char \<in> set method. char < CHR ''A'' \<or> char > CHR ''Z''
                 then (None, 0, data, Some (ErrorInvalidMethod method))
            else (Some \<lparr>HttpVersion = ''1.1'', RequestTarget = target, Method = method\<rparr>,
                  int (length line) + 2, restOfMsg, None))"
proof -
  have c4: "Cut ''HTTP/1.1'' ''/'' = (''HTTP'', ''1.1'', True)"
    by (simp add: Cut_def)
  show ?thesis
    unfolding parseRequestLine_def by (simp add: assms c4)
qed

text \<open>
  C6, as the spec states it, fails: on a request line with a lowercase method and a version
  part other than \<open>HTTP/1.1\<close> the parser reports the unsupported version, because it
  compares the version part with \<open>"HTTP/1.1"\<close> before it looks at the method bytes.
\<close>

theorem invalid_method_any_version_counterexample:
  "parseRequestLine (''get / HTTP/1.0'' @ CRLF) =
     (None, 0, ''get / HTTP/1.0'' @ CRLF, Some (ErrorInvalidVersion ''HTTP/1.0''))
   \<and> snd (snd (snd (parseRequestLine (''get / HTTP/1.0'' @ CRLF)))) \<noteq> Some (ErrorInvalidMethod ''get'')"
  by (simp add: eval_simps)

text \<open>
  C6, amended. Take a request line \<open>method SP target SP version CRLF\<close> in which CRLF first
  occurs at the end, whose method and target hold no space, and whose method holds a byte
  outside \<open>'A'..'Z'\<close>. If the version part is exactly \<open>HTTP/1.1\<close>, \<open>parseRequestLine\<close>
  returns \<open>ErrorInvalidMethod\<close> carrying the raw method; with any other version part it
  returns \<open>ErrorInvalidVersion\<close> carrying the version part. Either way no bytes are consumed
  and no request line is returned.
\<close>

theorem invalid_method:
  assumes "CHR '' '' \<notin> set method" and "CHR '' '' \<notin> set target"
    and "\<not> sublist CRLF (method @ '' '' @ target @ '' '' @ version)"
    and "\<exists>c \<in> set method. c < CHR ''A'' \<or> c > CHR ''Z''"
  shows "parseRequestLine (method @ '' '' @ target @ '' '' @ version @ CRLF @ rest) =
           (None, 0, method @ '' '' @ target @ '' '' @ version @ CRLF @ rest,
            Some (if version = ''HTTP/1.1'' then ErrorInvalidMethod method
                  else ErrorInvalidVersion version))"
proof -
  define line where "line = method @ '' '' @ target @ '' '' @ version"
  define rest1 where "rest1 = target @ '' '' @ version"
  have c1: "Cut (line @ CRLF @ rest) CRLF = (line, rest, True)"
    using assms(3) unfolding line_def by (rule Cut_CRLF_first)
  have c2: "Cut line '' '' = (method, rest1, True)"
    using Cut_char[OF assms(1), of rest1] by (simp add: line_def rest1_def)
  have c3: "Cut rest1 '' '' = (target, version, True)"
    using Cut_char[OF assms(2), of version] by (simp add: rest1_def)
  have "parseRequestLine (line @ CRLF @ rest) =
           (None, 0, line @ CRLF @ rest,
            Some (if version = ''HTTP/1.1'' then ErrorInvalidMethod method
                  else ErrorInvalidVersion version))"
    using assms(4) by (simp add: parseRequestLine_split[OF c1 c2 c3])
  then show ?thesis by (simp add: line_def)
qed

theorem invalid_method_witness:
  "CHR '' '' \<notin> set ''get'' \<and> CHR '' '' \<notin> set ''/''
   \<and> \<not> sublist CRLF (''get'' @ '' '' @ ''/'' @ '' '' @ ''HTTP/1.1'')
   \<and> (\<exists>c \<in> set ''get''. c < CHR ''A'' \<or> c > CHR ''Z'')
   \<and> parseRequestLine (''get / HTTP/1.1'' @ CRLF @ CRLF) =
        (None, 0, ''get / HTTP/1.1'' @ CRLF @ CRLF, Some (ErrorInvalidMethod ''get''))"
proof -
  have h1: "CHR '' '' \<notin> set ''get''" and h2: "CHR '' '' \<notin> set ''/''" by simp_all
  have h3: "\<not> sublist CRLF (''get'' @ '' '' @ ''/'' @ '' '' @ ''HTTP/1.1'')"
    by (rule Index_absent_sublist) (simp add: CRLF_def)
  have h4: "\<exists>c \<in> set ''get''. c < CHR ''A'' \<or> c > CHR ''Z''" by (simp add: less_char_def)
  show ?thesis using h1 h2 h3 h4 invalid_method[OF h1 h2 h3 h4, of CRLF] by simp
qed

section \<open>Concrete streams\<close>

lemma chunksOf_single: "data \<noteq> [] \<Longrightarrow> length data \<le> k \<Longrightarrow> chunksOf k data = [data]"
  by (subst chunksOf.simps, subst chunksOf.simps) (cases data, auto)

text \<open>
  C4. Reading the stream \<open>"GET / HTTP/1.1\r\nHost: localhost:42069\r\n\r\n"\<close> from a
  \<open>strings.Reader\<close> returns, without error, the Request with Method \<open>GET\<close>, RequestTarget
  \<open>/\<close>, HttpVersion \<open>1.1\<close> and the header map \<open>{"host": "localhost:42069"}\<close>. The Request
  of this repository has no body field; the request line and the header section take up
  all 41 bytes of the stream, so that no byte is left over for a body.
\<close>

theorem scenario_A:
  "RequestFromReader U (stringsReader scenarioA) =
     Inr \<lparr>RequestLine = \<lparr>HttpVersion = ''1.1'', RequestTarget = ''/'', Method = ''GET''\<rparr>,
          Headers = Some [''host'' \<mapsto> ''localhost:42069''], state = requestStateDone\<rparr>
   \<and> parse U newRequest scenarioA =
       (\<lparr>RequestLine = \<lparr>HttpVersion = ''1.1'', RequestTarget = ''/'', Method = ''GET''\<rparr>,
         Headers = Some [''host'' \<mapsto> ''localhost:42069''], state = requestStateDone\<rparr>,
        int (length scenarioA), None)"
proof -
  have p: "parse U newRequest scenarioA =
       (\<lparr>RequestLine = \<lparr>HttpVersion = ''1.1'', RequestTarget = ''/'', Method = ''GET''\<rparr>,
         Headers = Some [''host'' \<mapsto> ''localhost:42069''], state = requestStateDone\<rparr>,
        41, None)"
    by (simp add: scenarioA_def parse_def parse_loop.simps eval_simps)
  have c: "chunksOf 1024 scenarioA = [scenarioA]"
    by (rule chunksOf_single) (simp_all add: scenarioA_def)
  have l: "int (length scenarioA) = 41" by (simp add: scenarioA_def)
  show ?thesis
    by (simp add: RequestFromReader_def stringsReader_def c p l) (simp add: newRequest_def)
qed

theorem scenario_A_witness:
  "RequestFromReader U0 (stringsReader scenarioA) =
     Inr \<lparr>RequestLine = \<lparr>HttpVersion = ''1.1'', RequestTarget = ''/'', Method = ''GET''\<rparr>,
          Headers = Some [''host'' \<mapsto> ''localhost:42069''], state = requestStateDone\<rparr>"
  using scenario_A[of U0] by simp

text \<open>
  C2, evaluated on the code. The parser has no body state: after the blank line the state
  is \<open>requestStateDone\<close>, the \<open>Content-Length\<close> entry is stored like any other header and
  is never read. The stream of the claim, delivered ten bytes per read as in the
  repository's test, is accepted: the six bytes after the header section stay in the
  buffer and no error is returned.
\<close>

theorem scenario_C_accepted:
  "RequestFromReader U (chunkReader scenarioC 10) =
     Inr \<lparr>RequestLine = \<lparr>HttpVersion = ''1.1'', RequestTarget = ''/x'', Method = ''POST''\<rparr>,
          Headers = Some [''content-length'' \<mapsto> ''5''], state = requestStateDone\<rparr>"
  by (simp add: RequestFromReader_def chunkReader_def scenarioC_def chunksOf.simps
        parse_def parse_loop.simps eval_simps)


section \<open>The parse loop on a growing buffer\<close>

text \<open>One round of the loop of parse, written on the remaining slice.\<close>

lemma parse_loop_shift:
  "0 \<le> t \<Longrightarrow> parse_loop U r p t =
     (case parse_loop U r (drop (nat t) p) 0 of (r', n, e) \<Rightarrow> (r', t + n, e))"
proof (induction "nat (int (length p) - t)" arbitrary: r t p rule: less_induct)
  case less
  show ?case
  proof (cases "state r = requestStateDone \<or> int (length p) \<le> t")
    case True
    then have "state r = requestStateDone \<or> int (length (drop (nat t) p)) \<le> 0" by auto
    from parse_loop_stop[OF True, of U] parse_loop_stop[OF this, of U] show ?thesis by simp
  next
    case False
    then have ns: "state r \<noteq> requestStateDone" and lt: "t < int (length p)" by auto
    from lt less.prems have lt0: "0 < int (length (drop (nat t) p))" by simp
    obtain r1 m err where ps: "parseSingle U r (drop (nat t) p) = (r1, m, err)"
      by (cases "parseSingle U r (drop (nat t) p)") auto
    then have ps0: "parseSingle U r (drop (nat 0) (drop (nat t) p)) = (r1, m, err)" by simp
    from parseSingle_nonneg[OF ps] have m0: "0 \<le> m" .
    note step = parse_loop_step[OF ns lt ps]
    note step0 = parse_loop_step[OF ns lt0 ps0]
    show ?thesis
    proof (cases "err \<noteq> None \<or> m = 0")
      case True
      with step step0 show ?thesis by auto
    next
      case stepped: False
      with m0 have mpos: "0 < m" by simp
      have l: "parse_loop U r p t = parse_loop U r1 p (t + m)" using step stepped by simp
      have l0: "parse_loop U r (drop (nat t) p) 0 = parse_loop U r1 (drop (nat t) p) m"
        using step0 stepped by simp
      from mpos lt have d1: "nat (int (length p) - (t + m)) < nat (int (length p) - t)" by simp
      have e1: "parse_loop U r1 p (t + m) =
        (case parse_loop U r1 (drop (nat (t + m)) p) 0 of (r', n, e) \<Rightarrow> (r', t + m + n, e))"
        using less.hyps[OF d1] less.prems m0 by simp
      from mpos lt0 less.prems
      have d2: "nat (int (length (drop (nat t) p)) - m) < nat (int (length p) - t)" by simp
      have e2: "parse_loop U r1 (drop (nat t) p) m =
        (case parse_loop U r1 (drop (nat m) (drop (nat t) p)) 0 of (r', n, e) \<Rightarrow> (r', m + n, e))"
        using less.hyps[OF d2] m0 by simp
      have "drop (nat m) (drop (nat t) p) = drop (nat (t + m)) p"
        using m0 less.prems by (simp add: nat_add_distrib add.commute)
      with l l0 e1 e2 show ?thesis by (simp split: prod.splits)
    qed
  qed
qed

lemma parse_unfold:
  "parse U r p =
     (if state r = requestStateDone \<or> p = [] then (r, 0, None)
      else case parseSingle U r p of (r1, m, err) \<Rightarrow>
        if err \<noteq> None then (r1, 0, err)
        else if m = 0 then (r1, 0, None)
        else case parse U r1 (drop (nat m) p) of (r', n, e) \<Rightarrow> (r', m + n, e))"
proof (cases "state r = requestStateDone \<or> p = []")
  case True
  then have "state r = requestStateDone \<or> int (length p) \<le> 0" by auto
  from parse_loop_stop[OF this, of U] True show ?thesis by (simp add: parse_def)
next
  case False
  then have ns: "state r \<noteq> requestStateDone" and lt: "0 < int (length p)" by auto
  obtain r1 m err where ps: "parseSingle U r p = (r1, m, err)"
    by (cases "parseSingle U r p") auto
  then have ps0: "parseSingle U r (drop (nat 0) p) = (r1, m, err)" by simp
  from parseSingle_nonneg[OF ps] have m0: "0 \<le> m" .
  from parse_loop_step[OF ns lt ps0] parse_loop_shift[OF m0, of U r1 p] False ps
  show ?thesis by (simp add: parse_def)
qed


lemma state_touch [simp]: "state (touch r) = state r"
  by (simp add: touch_def)

lemma parseSingle_touch: "parseSingle U (touch r) x = parseSingle U r x"
  by (cases "state r") (auto simp: touch_def parseSingle_def Let_def split: prod.splits option.splits)

lemma parseRequestLine_no_crlf: "Index p CRLF = - 1 \<Longrightarrow> parseRequestLine p = (None, 0, p, None)"
  by (simp add: parseRequestLine_def Cut_def)

lemma Parse_no_crlf: "Index p CRLF = - 1 \<Longrightarrow> Parse U h p = (h, 0, False, None)"
  by (simp add: Parse_def)

lemma parseSingle_insufficient:
  assumes "Index p CRLF = - 1"
  shows "parseSingle U r p = (touch r, 0, None)"
proof (cases "state r")
  case requestStateInitialized
  then show ?thesis
    by (simp add: parseSingle_def parseRequestLine_no_crlf[OF assms] touch_def)
next
  case requestStateDone
  then show ?thesis by (simp add: parseSingle_def touch_def)
next
  case requestStateParsingHeaders
  then show ?thesis
    by (cases "Headers r") (simp_all add: parseSingle_def Parse_no_crlf[OF assms] touch_def)
qed

lemma parseRequestLine_same_line:
  assumes "Cut d1 CRLF = (line, rest1, True)" and "Cut d2 CRLF = (line, rest2, True)"
  shows "(case parseRequestLine d1 of (rl, n, rest, e) \<Rightarrow> (rl, n, e)) =
         (case parseRequestLine d2 of (rl, n, rest, e) \<Rightarrow> (rl, n, e))"
  unfolding parseRequestLine_def
  by (simp add: assms Let_def split: prod.splits)

lemma parseRequestLine_append:
  assumes "0 \<le> Index p CRLF"
  shows "(case parseRequestLine (p @ q) of (rl, n, rest, e) \<Rightarrow> (rl, n, e)) =
         (case parseRequestLine p of (rl, n, rest, e) \<Rightarrow> (rl, n, e))"
proof -
  from Index_range[OF assms(1)] assms(1) have le: "nat (Index p CRLF) \<le> length p" by simp
  have a: "Cut p CRLF = (take (nat (Index p CRLF)) p, drop (nat (Index p CRLF) + 2) p, True)"
    using assms(1) by (simp add: Cut_def Let_def)
  have b: "Cut (p @ q) CRLF =
      (take (nat (Index p CRLF)) p, drop (nat (Index p CRLF) + 2) (p @ q), True)"
    using assms(1) le by (simp add: Cut_def Let_def Index_append)
  show ?thesis by (rule parseRequestLine_same_line[OF b a])
qed

lemma Parse_append:
  assumes "0 \<le> Index p CRLF"
  shows "Parse U h (p @ q) = Parse U h p"
proof -
  from Index_range[OF assms(1)] assms(1) have le: "nat (Index p CRLF) \<le> length p" by simp
  then have teq: "take (nat (Index p CRLF)) (p @ q) = take (nat (Index p CRLF)) p" by simp
  show ?thesis unfolding Parse_def Let_def Index_append[OF assms] teq by (rule refl)
qed

lemma parseSingle_append:
  assumes "0 \<le> Index p CRLF"
  shows "parseSingle U r (p @ q) = parseSingle U r p"
proof (cases "state r")
  case requestStateInitialized
  obtain rl n rest e where a: "parseRequestLine p = (rl, n, rest, e)"
    by (cases "parseRequestLine p") auto
  obtain rl' n' rest' e' where b: "parseRequestLine (p @ q) = (rl', n', rest', e')"
    by (cases "parseRequestLine (p @ q)") auto
  from parseRequestLine_append[OF assms, of q] a b have "rl' = rl" "n' = n" "e' = e" by simp_all
  then show ?thesis by (simp add: parseSingle_def requestStateInitialized a b)
next
  case requestStateDone
  then show ?thesis by (simp add: parseSingle_def)
next
  case requestStateParsingHeaders
  then show ?thesis by (simp add: parseSingle_def Parse_append[OF assms])
qed

lemma parseRequestLine_progress:
  assumes "0 \<le> Index p CRLF" and "parseRequestLine p = (rl, n, rest, None)"
  shows "0 < n"
proof -
  have "Cut p CRLF = (take (nat (Index p CRLF)) p, drop (nat (Index p CRLF) + 2) p, True)"
    using assms(1) by (simp add: Cut_def Let_def)
  with assms(2) show ?thesis
    unfolding parseRequestLine_def
    by (simp add: Let_def split: prod.splits if_splits)
qed

lemma Parse_progress:
  assumes "0 \<le> Index p CRLF" and "Parse U h p = (h', n, d, None)"
  shows "0 < n"
  using assms unfolding Parse_def
  by (simp add: Let_def split: prod.splits if_splits option.splits)

lemma parseSingle_progress:
  assumes "0 \<le> Index p CRLF" and "state r \<noteq> requestStateDone"
    and "parseSingle U r p = (r1, m, None)"
  shows "0 < m"
proof (cases "state r")
  case requestStateInitialized
  obtain rl n rest e where a: "parseRequestLine p = (rl, n, rest, e)"
    by (cases "parseRequestLine p") auto
  with assms(3) requestStateInitialized have "e = None" and "m = n"
    by (auto simp: parseSingle_def split: if_splits option.splits)
  with parseRequestLine_progress[OF assms(1)] a show ?thesis by simp
next
  case requestStateDone
  with assms(2) show ?thesis by simp
next
  case requestStateParsingHeaders
  define h where "h = (case Headers r of None \<Rightarrow> NewHeaders | Some h \<Rightarrow> h)"
  obtain h' n d e where a: "Parse U h p = (h', n, d, e)"
    by (cases "Parse U h p") auto
  with assms(3) requestStateParsingHeaders have "e = None"
    by (auto simp: parseSingle_def Let_def h_def split: if_splits)
  with Parse_progress[OF assms(1)] a have "0 < n" by simp
  with assms(3) requestStateParsingHeaders a show ?thesis
    by (auto simp: parseSingle_def Let_def h_def split: if_splits)
qed

lemma parse_touch: "x \<noteq> [] \<Longrightarrow> parse U (touch r) x = parse U r x"
proof (cases "state r = requestStateDone")
  case True
  then show ?thesis by (simp add: touch_def)
next
  case False
  assume "x \<noteq> []"
  with False show ?thesis
    by (subst parse_unfold, subst (2) parse_unfold) (simp add: parseSingle_touch)
qed

lemma parse_nonneg: "parse U r p = (r', n, e) \<Longrightarrow> 0 \<le> n"
  using parse_loop_bounds[where t = 0 and p = p and U = U and r = r and r' = r' and n = n and e = e]
  by (simp add: parse_def)

lemma parse_le: "parse U r p = (r', n, e) \<Longrightarrow> n \<le> int (length p)"
  using parse_loop_bounds[where t = 0 and p = p and U = U and r = r and r' = r' and n = n and e = e]
  by (simp add: parse_def)

lemma parse_append:
  "parse U r (p @ q) =
     (case parse U r p of (r1, n, e) \<Rightarrow>
        if e \<noteq> None then (r1, n, e)
        else case parse U r1 (drop (nat n) p @ q) of (r2, m, e2) \<Rightarrow> (r2, n + m, e2))"
proof (induction "length p" arbitrary: r p rule: less_induct)
  case less
  show ?case
  proof (cases "state r = requestStateDone")
    case True
    then show ?thesis by (simp add: parse_unfold)
  next
    case ns: False
    show ?thesis
    proof (cases "p = []")
      case True
      then show ?thesis by (simp add: parse_unfold[of U r "[]"] split: prod.splits)
    next
      case ne: False
      obtain r1 m err where ps: "parseSingle U r p = (r1, m, err)"
        by (cases "parseSingle U r p") auto
      show ?thesis
      proof (cases "0 \<le> Index p CRLF")
        case False
        with Index_ge[of p CRLF] have "Index p CRLF = - 1" by simp
        from parseSingle_insufficient[OF this, where U = U and r = r]
        have "parse U r p = (touch r, 0, None)"
          using ns ne by (simp add: parse_unfold[of U r p])
        moreover have "parse U (touch r) (p @ q) = parse U r (p @ q)"
          using ne by (simp add: parse_touch)
        ultimately show ?thesis by (simp split: prod.splits)
      next
        case found: True
        have psq: "parseSingle U r (p @ q) = (r1, m, err)"
          using parseSingle_append[OF found, where U = U and r = r and q = q] ps by simp
        show ?thesis
        proof (cases "err = None")
          case False
          with ns ne ps psq show ?thesis
            by (simp add: parse_unfold[of U r p] parse_unfold[of U r "p @ q"])
        next
          case True
          with parseSingle_progress[OF found ns] ps have mpos: "0 < m" by simp
          from parseSingle_le[OF ps] have mle: "m \<le> int (length p)" .
          obtain r2 n e where p1: "parse U r1 (drop (nat m) p) = (r2, n, e)"
            by (cases "parse U r1 (drop (nat m) p)") auto
          from parse_nonneg[OF p1] have n0: "0 \<le> n" .
          have lhs: "parse U r (p @ q) =
              (case parse U r1 (drop (nat m) p @ q) of (r', k, e') \<Rightarrow> (r', m + k, e'))"
            using ns ne psq True mpos mle by (simp add: parse_unfold[of U r "p @ q"])
          have rhs: "parse U r p = (r2, m + n, e)"
            using ns ne ps True mpos p1 by (simp add: parse_unfold[of U r p])
          have "length (drop (nat m) p) < length p" using mpos ne by simp
          from less.hyps[OF this, of r1] p1
          have ih: "parse U r1 (drop (nat m) p @ q) =
              (if e \<noteq> None then (r2, n, e)
               else case parse U r2 (drop (nat n) (drop (nat m) p) @ q) of
                      (r3, k, e3) \<Rightarrow> (r3, n + k, e3))" by simp
          have dd: "drop (nat n) (drop (nat m) p) = drop (nat (m + n)) p"
            using mpos n0 by (simp add: nat_add_distrib add.commute)
          show ?thesis using lhs rhs ih dd by (simp split: prod.splits)
        qed
      qed
    qed
  qed
qed


section \<open>The driver on a chunked stream\<close>

text \<open>
  Between two reads the driver holds a Request and a buffer on which \<open>parse\<close> makes no
  further progress. From such a state, reading the chunks \<open>cs\<close> and then end-of-stream
  gives what one call of \<open>parse\<close> on the buffer followed by all the chunks gives.
\<close>

lemma parse_stalled:
  assumes "parse U r p = (r1, n, None)"
  shows "parse U r1 (drop (nat n) p) = (r1, 0, None)"
proof -
  obtain r2 m e2 where b: "parse U r1 (drop (nat n) p) = (r2, m, e2)"
    by (cases "parse U r1 (drop (nat n) p)") auto
  from parse_append[of U r p "[]"] assms b have "(r1, n, None) = (r2, n + m, e2)" by simp
  with b show ?thesis by simp
qed

lemma parse_Done: "state r = requestStateDone \<Longrightarrow> parse U r p = (r, 0, None)"
  by (simp add: parse_unfold)

lemma reader_loop_chunks:
  assumes "parse U r buf = (r, 0, None)"
  shows "reader_loop U r buf (map (\<lambda>c. (c, None)) cs) =
     (if state r = requestStateDone then Inr r
      else case parse U r (buf @ concat cs) of (r', n, e) \<Rightarrow>
        (case e of Some x \<Rightarrow> Inl x | None \<Rightarrow> Inr (r'\<lparr>state := requestStateDone\<rparr>)))"
  using assms
proof (induction cs arbitrary: r buf)
  case Nil
  then show ?case by simp
next
  case (Cons c cs)
  show ?case
  proof (cases "state r = requestStateDone")
    case True
    then show ?thesis by simp
  next
    case ns: False
    obtain r1 n e where p1: "parse U r (buf @ c) = (r1, n, e)"
      by (cases "parse U r (buf @ c)") auto
    have app: "parse U r (buf @ concat (c # cs)) =
        (if e \<noteq> None then (r1, n, e)
         else case parse U r1 (drop (nat n) (buf @ c) @ concat cs) of
                (r2, m, e2) \<Rightarrow> (r2, n + m, e2))"
      using parse_append[of U r "buf @ c" "concat cs"] p1 by simp
    show ?thesis
    proof (cases e)
      case (Some x)
      with ns p1 app show ?thesis by simp
    next
      case None
      from parse_nonneg[OF p1] have n0: "0 \<le> n" .
      have buf': "(if 0 < n then drop (nat n) (buf @ c) else buf @ c) = drop (nat n) (buf @ c)"
        using n0 by (cases "n = 0") auto
      from parse_stalled[OF p1[unfolded None]]
      have st: "parse U r1 (drop (nat n) (buf @ c)) = (r1, 0, None)" .
      have step: "reader_loop U r buf (map (\<lambda>c. (c, None)) (c # cs)) =
          reader_loop U r1 (drop (nat n) (buf @ c)) (map (\<lambda>c. (c, None)) cs)"
        using ns p1 None buf' by (simp del: drop_append)
      show ?thesis
      proof (cases "state r1 = requestStateDone")
        case True
        have "r1\<lparr>state := requestStateDone\<rparr> = r1" using True by simp
        with True step Cons.IH[OF st] app None ns show ?thesis
          by (simp add: parse_Done del: drop_append)
      next
        case False
        with step Cons.IH[OF st] app None ns show ?thesis
          by (simp split: prod.splits del: drop_append)
      qed
    qed
  qed
qed

lemma RequestFromReader_chunks:
  "RequestFromReader U (map (\<lambda>c. (c, None)) cs) =
     (case parse U newRequest (concat cs) of (r', n, e) \<Rightarrow>
        (case e of Some x \<Rightarrow> Inl x | None \<Rightarrow> Inr (r'\<lparr>state := requestStateDone\<rparr>)))"
proof -
  have "parse U newRequest [] = (newRequest, 0, None)" by (simp add: parse_unfold)
  from reader_loop_chunks[OF this, of cs] show ?thesis
    by (simp add: RequestFromReader_def newRequest_def)
qed

lemma concat_chunksOf: "0 < k \<Longrightarrow> concat (chunksOf k data) = data"
proof (induction k data rule: chunksOf.induct)
  case (1 k data)
  then show ?case by (subst chunksOf.simps) auto
qed

lemma parse_scenarioA:
  "parse U newRequest scenarioA =
       (\<lparr>RequestLine = \<lparr>HttpVersion = ''1.1'', RequestTarget = ''/'', Method = ''GET''\<rparr>,
         Headers = Some [''host'' \<mapsto> ''localhost:42069''], state = requestStateDone\<rparr>,
        41, None)"
  by (simp add: scenarioA_def parse_def parse_loop.simps eval_simps)

lemma parse_scenarioF:
  "parse U newRequest scenarioF =
       (\<lparr>RequestLine = \<lparr>HttpVersion = ''1.1'', RequestTarget = ''/'', Method = ''GET''\<rparr>,
         Headers = Some [''host'' \<mapsto> ''localhost''], state = requestStateParsingHeaders\<rparr>,
        33, None)"
  by (simp add: scenarioF_def parse_def parse_loop.simps eval_simps)

text \<open>
  C3. For every byte stream \<open>data\<close> and every chunk size \<open>numBytesPerRead \<ge> 1\<close>,
  \<open>RequestFromReader\<close> on the stream delivered \<open>numBytesPerRead\<close> bytes per read returns
  what it returns on the stream delivered in one piece; and when the stream is a valid
  request (one call of \<open>parse\<close> on the whole stream ends in \<open>requestStateDone\<close> without
  error), every chunk size returns exactly that Request: the same request line and the
  same header map.
\<close>

theorem chunk_size_invariance:
  assumes "0 < k"
  shows "RequestFromReader U (chunkReader data k) = RequestFromReader U [(data, None)]
       \<and> (\<forall>r n. parse U newRequest data = (r, n, None) \<and> state r = requestStateDone
              \<longrightarrow> RequestFromReader U (chunkReader data k) = Inr r)"
proof -
  from assms have "concat (chunksOf (min k 1024) data) = data" by (simp add: concat_chunksOf)
  then have a: "RequestFromReader U (chunkReader data k) =
     (case parse U newRequest data of (r', n, e) \<Rightarrow>
        (case e of Some x \<Rightarrow> Inl x | None \<Rightarrow> Inr (r'\<lparr>state := requestStateDone\<rparr>)))"
    unfolding chunkReader_def by (simp add: RequestFromReader_chunks)
  have b: "RequestFromReader U [(data, None)] =
     (case parse U newRequest data of (r', n, e) \<Rightarrow>
        (case e of Some x \<Rightarrow> Inl x | None \<Rightarrow> Inr (r'\<lparr>state := requestStateDone\<rparr>)))"
    using RequestFromReader_chunks[of U "[data]"] by simp
  have c: "\<And>r. state r = requestStateDone \<Longrightarrow> r\<lparr>state := requestStateDone\<rparr> = r" by simp
  show ?thesis using a b c by auto
qed

theorem chunk_size_invariance_witness:
  "0 < (1::nat)
   \<and> RequestFromReader U0 (chunkReader scenarioA 1) = RequestFromReader U0 [(scenarioA, None)]
   \<and> RequestFromReader U0 (chunkReader scenarioA 1) =
       Inr \<lparr>RequestLine = \<lparr>HttpVersion = ''1.1'', RequestTarget = ''/'', Method = ''GET''\<rparr>,
            Headers = Some [''host'' \<mapsto> ''localhost:42069''], state = requestStateDone\<rparr>"
proof -
  have h: "0 < (1::nat)" by simp
  note inv = chunk_size_invariance[OF h, of U0 scenarioA]
  from inv have a: "RequestFromReader U0 (chunkReader scenarioA 1) = RequestFromReader U0 [(scenarioA, None)]"
    by (rule conjunct1)
  from conjunct2[OF inv] parse_scenarioA[of U0]
  have b: "RequestFromReader U0 (chunkReader scenarioA 1) =
       Inr \<lparr>RequestLine = \<lparr>HttpVersion = ''1.1'', RequestTarget = ''/'', Method = ''GET''\<rparr>,
            Headers = Some [''host'' \<mapsto> ''localhost:42069''], state = requestStateDone\<rparr>"
    by simp
  from h a b show ?thesis by blast
qed


text \<open>
  C1, as the spec states it, fails. Scenario F: the stream closes in the middle of the
  second header. \<open>RequestFromReader\<close> returns a nil error and a Request, and the Request
  holds the \<open>host\<close> entry that was complete when the stream ended.
\<close>

theorem end_of_stream_counterexample:
  "RequestFromReader U0 (stringsReader scenarioF) =
     Inr \<lparr>RequestLine = \<lparr>HttpVersion = ''1.1'', RequestTarget = ''/'', Method = ''GET''\<rparr>,
          Headers = Some [''host'' \<mapsto> ''localhost''], state = requestStateDone\<rparr>"
proof -
  have c: "chunksOf 1024 scenarioF = [scenarioF]"
    by (rule chunksOf_single) (simp_all add: scenarioF_def)
  have s: "parse U0 \<lparr>RequestLine = \<lparr>HttpVersion = ''1.1'', RequestTarget = ''/'', Method = ''GET''\<rparr>,
         Headers = Some [''host'' \<mapsto> ''localhost''], state = requestStateParsingHeaders\<rparr> ''User-Age''
     = (\<lparr>RequestLine = \<lparr>HttpVersion = ''1.1'', RequestTarget = ''/'', Method = ''GET''\<rparr>,
         Headers = Some [''host'' \<mapsto> ''localhost''], state = requestStateParsingHeaders\<rparr>, 0, None)"
    by (simp add: parse_def parse_loop.simps eval_simps)
  show ?thesis
    by (simp add: RequestFromReader_def stringsReader_def c parse_scenarioF)
       (simp add: newRequest_def scenarioF_def)
qed

lemma parse_stuck_no_CRLF:
  assumes "parse U r x = (r', 0, None)" and "state r \<noteq> requestStateDone"
  shows "\<not> sublist CRLF x"
proof (cases "x = []")
  case True
  then show ?thesis by (simp add: CRLF_def)
next
  case ne: False
  obtain r1 m err where ps: "parseSingle U r x = (r1, m, err)"
    by (cases "parseSingle U r x") auto
  have "\<not> 0 \<le> Index x CRLF"
  proof
    assume found: "0 \<le> Index x CRLF"
    show False
    proof (cases "err = None")
      case False
      with assms ne ps show False by (simp add: parse_unfold[of U r x])
    next
      case True
      with parseSingle_progress[OF found assms(2)] ps have mpos: "0 < m" by simp
      obtain r2 k e where p1: "parse U r1 (drop (nat m) x) = (r2, k, e)"
        by (cases "parse U r1 (drop (nat m) x)") auto
      from parse_nonneg[OF p1] have "0 \<le> k" .
      with assms ne ps True mpos p1 show False by (simp add: parse_unfold[of U r x])
    qed
  qed
  with Index_ge[of x CRLF] have "Index x CRLF = - 1" by simp
  then show ?thesis by (rule Index_absent_sublist)
qed

lemma reader_loop_reads:
  assumes "parse U r buf = (r, 0, None)"
    and "\<forall>rd \<in> set (beforeEOF reads). snd rd = None \<or> snd rd = Some EOF"
  shows "reader_loop U r buf reads =
     (if state r = requestStateDone then Inr r
      else case parse U r (buf @ delivered reads) of (r', n, e) \<Rightarrow>
        (case e of Some x \<Rightarrow> Inl x | None \<Rightarrow> Inr (r'\<lparr>state := requestStateDone\<rparr>)))"
  using assms
proof (induction reads arbitrary: r buf)
  case Nil
  then show ?case by (simp add: delivered_def beforeEOF_def)
next
  case (Cons rd reads)
  obtain c err where rd: "rd = (c, err)" by (cases rd) auto
  show ?case
  proof (cases "state r = requestStateDone")
    case True
    then show ?thesis by (simp add: rd)
  next
    case ns: False
    show ?thesis
    proof (cases "length c = 0 \<and> err = Some EOF")
      case True
      then have "delivered (rd # reads) = []" by (simp add: delivered_def beforeEOF_def rd)
      with True ns Cons.prems(1) show ?thesis by (simp add: rd)
    next
      case cont: False
      then have bf: "beforeEOF (rd # reads) = rd # beforeEOF reads"
        by (auto simp: beforeEOF_def rd)
      with Cons.prems(2) have ok: "err = None \<or> err = Some EOF"
        and rest: "\<forall>rd \<in> set (beforeEOF reads). snd rd = None \<or> snd rd = Some EOF"
        by (auto simp: rd)
      have dl: "delivered (rd # reads) = c @ delivered reads"
        unfolding delivered_def bf by (simp add: rd)
      obtain r1 n e where p1: "parse U r (buf @ c) = (r1, n, e)"
        by (cases "parse U r (buf @ c)") auto
      have app: "parse U r (buf @ delivered (rd # reads)) =
          (if e \<noteq> None then (r1, n, e)
           else case parse U r1 (drop (nat n) (buf @ c) @ delivered reads) of
                  (r2, m, e2) \<Rightarrow> (r2, n + m, e2))"
        using parse_append[of U r "buf @ c" "delivered reads"] p1 by (simp add: dl)
      have head: "reader_loop U r buf (rd # reads) =
          (case e of Some x \<Rightarrow> Inl x
           | None \<Rightarrow> reader_loop U r1 (if 0 < n then drop (nat n) (buf @ c) else buf @ c) reads)"
        using ns cont ok p1 by (auto simp: rd Let_def simp del: drop_append split: option.splits)
      show ?thesis
      proof (cases e)
        case (Some x)
        with ns head app show ?thesis by simp
      next
        case None
        from parse_nonneg[OF p1] have n0: "0 \<le> n" .
        have buf': "(if 0 < n then drop (nat n) (buf @ c) else buf @ c) = drop (nat n) (buf @ c)"
          using n0 by (cases "n = 0") auto
        from parse_stalled[OF p1[unfolded None]]
        have st: "parse U r1 (drop (nat n) (buf @ c)) = (r1, 0, None)" .
        have step: "reader_loop U r buf (rd # reads) =
            reader_loop U r1 (drop (nat n) (buf @ c)) reads"
          using head None buf' by simp
        show ?thesis
        proof (cases "state r1 = requestStateDone")
          case True
          have "r1\<lparr>state := requestStateDone\<rparr> = r1" using True by simp
          with True step Cons.IH[OF st rest] app None ns show ?thesis
            by (simp add: parse_Done del: drop_append)
        next
          case False
          with step Cons.IH[OF st rest] app None ns show ?thesis
            by (simp split: prod.splits del: drop_append)
        qed
      qed
    qed
  qed
qed

text \<open>
  C1, amended. Take any byte source whose reads, up to the first \<open>(0, io.EOF)\<close>, return
  a nil error or \<open>io.EOF\<close> (with or without bytes), and on whose bytes the parser, without
  error, has not reached \<open>requestStateDone\<close>. \<open>RequestFromReader\<close> returns a nil error and
  the Request as parsed so far (the request line and the header entries of the units that
  were complete), with its state set to \<open>requestStateDone\<close>. The \<open>n\<close> bytes parsed into it
  are a prefix of the bytes delivered, and the bytes after them, which are dropped, hold no
  CRLF: they are the incomplete last unit, on which the parser makes no step.
\<close>

theorem end_of_stream_returns_partial:
  assumes "\<forall>rd \<in> set (beforeEOF reads). snd rd = None \<or> snd rd = Some EOF"
    and "parse U newRequest (delivered reads) = (r, n, None)"
    and "state r \<noteq> requestStateDone"
  shows "RequestFromReader U reads = Inr (r\<lparr>state := requestStateDone\<rparr>)
       \<and> 0 \<le> n \<and> n \<le> int (length (delivered reads))
       \<and> parse U r (drop (nat n) (delivered reads)) = (r, 0, None)
       \<and> \<not> sublist CRLF (drop (nat n) (delivered reads))"
proof -
  have "parse U newRequest [] = (newRequest, 0, None)" by (simp add: parse_unfold)
  from reader_loop_reads[OF this assms(1)] assms(2)
  have a: "RequestFromReader U reads = Inr (r\<lparr>state := requestStateDone\<rparr>)"
    by (simp add: RequestFromReader_def newRequest_def)
  note st = parse_stalled[OF assms(2)]
  from a parse_nonneg[OF assms(2)] parse_le[OF assms(2)] st parse_stuck_no_CRLF[OF st assms(3)]
  show ?thesis by simp
qed


theorem end_of_stream_returns_partial_witness:
  "list_all (\<lambda>rd. snd rd = None \<or> snd rd = Some EOF)
     (beforeEOF [(''GET / HTTP/1.1'' @ CRLF @ ''Host: loc'', None),
                 (''alhost'' @ CRLF @ ''User-Age'', Some EOF), ([], Some EOF)])
   \<and> parse U0 newRequest
        (delivered [(''GET / HTTP/1.1'' @ CRLF @ ''Host: loc'', None),
                    (''alhost'' @ CRLF @ ''User-Age'', Some EOF), ([], Some EOF)]) =
     (\<lparr>RequestLine = \<lparr>HttpVersion = ''1.1'', RequestTarget = ''/'', Method = ''GET''\<rparr>,
       Headers = Some [''host'' \<mapsto> ''localhost''], state = requestStateParsingHeaders\<rparr>, 33, None)
   \<and> requestStateParsingHeaders \<noteq> requestStateDone
   \<and> RequestFromReader U0 [(''GET / HTTP/1.1'' @ CRLF @ ''Host: loc'', None),
                             (''alhost'' @ CRLF @ ''User-Age'', Some EOF), ([], Some EOF)] =
       Inr \<lparr>RequestLine = \<lparr>HttpVersion = ''1.1'', RequestTarget = ''/'', Method = ''GET''\<rparr>,
            Headers = Some [''host'' \<mapsto> ''localhost''], state = requestStateDone\<rparr>
   \<and> drop 33 (delivered [(''GET / HTTP/1.1'' @ CRLF @ ''Host: loc'', None),
                            (''alhost'' @ CRLF @ ''User-Age'', Some EOF), ([], Some EOF)]) = ''User-Age''
   \<and> \<not> sublist CRLF ''User-Age''"
proof -
  let ?reads = "[(''GET / HTTP/1.1'' @ CRLF @ ''Host: loc'', None),
                 (''alhost'' @ CRLF @ ''User-Age'', Some EOF), ([], Some EOF)]"
  have d: "delivered ?reads = scenarioF"
    by (simp add: delivered_def beforeEOF_def scenarioF_def)
  have h1: "\<forall>rd \<in> set (beforeEOF ?reads). snd rd = None \<or> snd rd = Some EOF"
    by (simp add: beforeEOF_def)
  have h2: "parse U0 newRequest (delivered ?reads) =
     (\<lparr>RequestLine = \<lparr>HttpVersion = ''1.1'', RequestTarget = ''/'', Method = ''GET''\<rparr>,
       Headers = Some [''host'' \<mapsto> ''localhost''], state = requestStateParsingHeaders\<rparr>, 33, None)"
    unfolding d by (rule parse_scenarioF)
  have h3: "state \<lparr>RequestLine = \<lparr>HttpVersion = ''1.1'', RequestTarget = ''/'', Method = ''GET''\<rparr>,
       Headers = Some [''host'' \<mapsto> ''localhost''], state = requestStateParsingHeaders\<rparr> \<noteq> requestStateDone"
    by simp
  have l: "list_all (\<lambda>rd. snd rd = None \<or> snd rd = Some EOF) (beforeEOF ?reads)"
    using h1 unfolding list_all_iff .
  have dr: "drop 33 (delivered ?reads) = ''User-Age''"
    unfolding d by (simp add: scenarioF_def CRLF_def)
  note t = end_of_stream_returns_partial[OF h1 h2 h3]
  from t have r: "RequestFromReader U0 ?reads =
       Inr \<lparr>RequestLine = \<lparr>HttpVersion = ''1.1'', RequestTarget = ''/'', Method = ''GET''\<rparr>,
            Headers = Some [''host'' \<mapsto> ''localhost''], state = requestStateDone\<rparr>"
    by simp
  from t dr have n: "\<not> sublist CRLF ''User-Age''" by simp
  from l h2 r dr n show ?thesis by simp
qed

section \<open>Repeated field names\<close>

lemma token_not_special:
  assumes "isTokenChar (lowerByte c)"
  shows "c \<noteq> CHR '' ''" and "c \<noteq> CHR '':''" and "c \<noteq> CHR 0x0D"
  using assms by (auto simp: isTokenChar_def lowerByte_def less_eq_char_def)

lemma validName_chars:
  assumes "validName nm"
  shows "CHR '':'' \<notin> set nm" and "CHR 0x0D \<notin> set nm" and "hd nm \<noteq> CHR '' ''" and "last nm \<noteq> CHR '' ''"
proof -
  from assms have tk: "\<forall>c \<in> set nm. isTokenChar (lowerByte c)" and ne: "nm \<noteq> []"
    by (auto simp: validName_def list_all_iff)
  from tk token_not_special show "CHR '':'' \<notin> set nm" "CHR 0x0D \<notin> set nm" by blast+
  from ne have "hd nm \<in> set nm" "last nm \<in> set nm" by simp_all
  with tk token_not_special show "hd nm \<noteq> CHR '' ''" "last nm \<noteq> CHR '' ''" by blast+
qed

lemma OWS_space:
  assumes "OWS s" and "c \<in> set s"
  shows "asciiSpace c"
proof -
  from assms have "c = CHR '' '' \<or> c = CHR 0x09"
    unfolding OWS_def list_all_iff by blast
  then show ?thesis unfolding asciiSpace_def by blast
qed

lemma OWS_no_CR:
  assumes "OWS s"
  shows "CHR 0x0D \<notin> set s"
proof
  assume "CHR 0x0D \<in> set s"
  with assms have "CHR 0x0D = CHR '' '' \<or> CHR 0x0D = CHR 0x09"
    unfolding OWS_def list_all_iff by blast
  then show False by simp
qed

lemma TrimSpace_value:
  assumes "validValue v" and "OWS l" and "OWS t"
  shows "TrimSpace U (l @ v @ t) = v"
proof (cases v)
  case Nil
  have "\<And>c. c \<in> set (l @ t) \<Longrightarrow> asciiSpace c"
    using OWS_space[OF assms(2)] OWS_space[OF assms(3)] by auto
  then have "dropWhile asciiSpace (l @ t) = []" by (simp only: dropWhile_eq_Nil_conv) blast
  then have "TrimSpace U (l @ t) = []" unfolding TrimSpace_def by (simp only: list.case)
  with Nil show ?thesis by simp
next
  case (Cons c u)
  with assms(1) have hd: "isASCII c" "\<not> asciiSpace c"
    and la: "isASCII (last v)" "\<not> asciiSpace (last v)"
    by (auto simp: validValue_def)
  have "dropWhile asciiSpace (l @ (v @ t)) = dropWhile asciiSpace (v @ t)"
    by (rule dropWhile_append2) (rule OWS_space[OF assms(2)])
  then have d: "dropWhile asciiSpace (l @ v @ t) = c # (u @ t)"
    using hd Cons by simp
  have vne: "v \<noteq> []" using Cons by simp
  have rv: "rev v = last v # rev (butlast v)"
    using vne by (metis append_butlast_last_id rev_append append_Cons append_Nil rev_singleton_conv)
  have "dropWhile asciiSpace (rev t @ rev v) = dropWhile asciiSpace (rev v)"
    by (rule dropWhile_append2) (simp add: OWS_space[OF assms(3)])
  also have "\<dots> = rev v" by (metis rv la(2) dropWhile.simps(2))
  finally have w: "rev (dropWhile asciiSpace (rev (c # (u @ t)))) = v"
    using Cons by simp
  show ?thesis
    unfolding TrimSpace_def d using hd la w by (simp add: Let_def)
qed

lemma no_CR_no_CRLF: "CHR 0x0D \<notin> set s \<Longrightarrow> \<not> sublist CRLF s"
proof
  assume a: "CHR 0x0D \<notin> set s" and "sublist CRLF s"
  then obtain xs ys where "s = xs @ CRLF @ ys" unfolding sublist_def by blast
  then have "CHR 0x0D \<in> set s" by (simp add: CRLF_def)
  with a show False by simp
qed

lemma Parse_fieldLine:
  assumes "validField key f"
  shows "Parse U h (fieldLine f @ rest) =
           (h(key \<mapsto> (case h key of None \<Rightarrow> fieldValue f
                        | Some e \<Rightarrow> e @ '', '' @ fieldValue f)),
            int (length (fieldLine f)), False, None)"
proof -
  define nm where "nm = fieldName f"
  define v where "v = fieldValue f"
  define l where "l = owsBefore f"
  define t where "t = owsAfter f"
  define line where "line = nm @ '':'' @ l @ v @ t"
  from assms have vn: "validName nm" and k: "map lowerByte nm = key" and vv: "validValue v"
    and ol: "OWS l" and ot: "OWS t"
    by (simp_all add: validField_def nm_def v_def l_def t_def)
  note nmc = validName_chars[OF vn]
  from vn have ne: "nm \<noteq> []" and asc: "list_all isASCII nm"
    and tok: "list_all isTokenChar (map lowerByte nm)"
    by (auto simp: validName_def)
  from vv have "CHR 0x0D \<notin> set v" by (simp add: validValue_def)
  with nmc(2) OWS_no_CR[OF ol] OWS_no_CR[OF ot] have "CHR 0x0D \<notin> set line" by (simp add: line_def)
  then have ncr: "\<not> sublist CRLF line" by (rule no_CR_no_CRLF)
  have data: "fieldLine f @ rest = line @ CRLF @ rest"
    by (simp add: fieldLine_def line_def nm_def v_def l_def t_def)
  have idx: "Index (line @ CRLF @ rest) CRLF = int (length line)"
    by (rule Index_CRLF_first[OF ncr])
  have lpos: "line \<noteq> []" using ne by (simp add: line_def)
  have hdr: "take (length line) (line @ CRLF @ rest) = line" by simp
  have cut: "Cut line '':'' = (nm, l @ v @ t, True)"
    using Cut_char[OF nmc(1), of "l @ v @ t"] by (simp add: line_def)
  have tl: "TrimLeft_space nm = nm"
    using nmc(3) ne by (cases nm) (simp_all add: TrimLeft_space_def)
  have lw: "ToLower U nm = key" using asc k by (simp add: ToLower_def)
  have len: "int (length (fieldLine f)) = int (length line) + 2"
    by (simp add: fieldLine_def line_def nm_def v_def l_def t_def)
  have tokk: "list_all isTokenChar key" using tok k by simp
  have res: "Parse U h (line @ CRLF @ rest) =
           (h(key \<mapsto> (case h key of None \<Rightarrow> v | Some e \<Rightarrow> e @ '', '' @ v)),
            int (length line) + 2, False, None)"
    unfolding Parse_def idx Let_def
    using lpos ne nmc(4) tokk
    by (simp add: hdr cut tl lw TrimSpace_value[OF vv ol ot] del: append_assoc split: option.splits)
  show ?thesis unfolding data len res v_def by (rule refl)
qed

lemma joinComma_merge: "joinComma ((a @ '', '' @ v) # vs) = joinComma (a # v # vs)"
  by (cases vs) simp_all

lemma length_fieldLine_pos: "0 < int (length (fieldLine f))"
  by (simp add: fieldLine_def)

lemma parseSingle_fieldLine:
  assumes "validField key f" and "state r = requestStateParsingHeaders"
  defines "h \<equiv> (case Headers r of None \<Rightarrow> NewHeaders | Some h \<Rightarrow> h)"
  shows "parseSingle U r (fieldLine f @ rest) =
           (r\<lparr>Headers := Some (h(key \<mapsto>
                 (case h key of None \<Rightarrow> fieldValue f | Some e \<Rightarrow> e @ '', '' @ fieldValue f)))\<rparr>,
            int (length (fieldLine f)), None)"
  using length_fieldLine_pos[of f]
  unfolding parseSingle_def h_def
  by (simp add: assms(2) Parse_fieldLine[OF assms(1)] Let_def)

lemma parse_fieldLine:
  assumes "validField key f" and "state r = requestStateParsingHeaders"
  defines "h \<equiv> (case Headers r of None \<Rightarrow> NewHeaders | Some h \<Rightarrow> h)"
  shows "parse U r (fieldLine f @ rest) =
     (case parse U (r\<lparr>Headers := Some (h(key \<mapsto>
                 (case h key of None \<Rightarrow> fieldValue f | Some e \<Rightarrow> e @ '', '' @ fieldValue f)))\<rparr>) rest
      of (r', n, e) \<Rightarrow> (r', int (length (fieldLine f)) + n, e))"
proof -
  have ne: "fieldLine f @ rest \<noteq> []" by (simp add: fieldLine_def)
  show ?thesis
    using length_fieldLine_pos[of f] ne
    by (subst parse_unfold)
       (simp add: assms(2) parseSingle_fieldLine[OF assms(1,2)] h_def del: append_is_Nil_conv)
qed

lemma parse_fieldLines_present:
  assumes "\<forall>f \<in> set fs. validField key f"
    and "state r = requestStateParsingHeaders" and "Headers r = Some h" and "h key = Some e"
  shows "parse U r (concat (map fieldLine fs)) =
           (r\<lparr>Headers := Some (h(key \<mapsto> joinComma (e # map fieldValue fs)))\<rparr>,
            int (length (concat (map fieldLine fs))), None)"
  using assms
proof (induction fs arbitrary: r h e)
  case Nil
  then have "h(key \<mapsto> e) = h" by (simp add: map_upd_triv)
  with Nil show ?case by (simp add: parse_unfold)
next
  case (Cons f fs)
  define v where "v = fieldValue f"
  from Cons.prems(1) have vf: "validField key f" and rest: "\<forall>f \<in> set fs. validField key f"
    by auto
  define h' where "h' = h(key \<mapsto> e @ '', '' @ v)"
  define r' where "r' = r\<lparr>Headers := Some h'\<rparr>"
  have step: "parse U r (fieldLine f @ concat (map fieldLine fs)) =
     (case parse U r' (concat (map fieldLine fs)) of
        (r'', n, e) \<Rightarrow> (r'', int (length (fieldLine f)) + n, e))"
    using parse_fieldLine[OF vf Cons.prems(2), of U "concat (map fieldLine fs)"]
    by (simp add: Cons.prems(3,4) r'_def h'_def v_def)
  have ih: "parse U r' (concat (map fieldLine fs)) =
           (r'\<lparr>Headers := Some (h'(key \<mapsto> joinComma ((e @ '', '' @ v) # map fieldValue fs)))\<rparr>,
            int (length (concat (map fieldLine fs))), None)"
  proof (rule Cons.IH[OF rest, of r' h' "e @ '', '' @ v"])
    show "state r' = requestStateParsingHeaders" by (simp add: r'_def Cons.prems(2))
    show "Headers r' = Some h'" by (simp add: r'_def)
    show "h' key = Some (e @ '', '' @ v)" by (simp add: h'_def)
  qed
  have jc: "joinComma ((e @ '', '' @ v) # map fieldValue fs) = joinComma (e # map fieldValue (f # fs))"
    using joinComma_merge[of e v "map fieldValue fs"] by (simp add: v_def)
  have hh: "h'(key \<mapsto> joinComma (e # map fieldValue (f # fs))) = h(key \<mapsto> joinComma (e # map fieldValue (f # fs)))"
    by (simp add: h'_def)
  have rr: "\<And>X. r'\<lparr>Headers := X\<rparr> = r\<lparr>Headers := X\<rparr>" by (simp add: r'_def)
  have cc: "concat (map fieldLine (f # fs)) = fieldLine f @ concat (map fieldLine fs)"
    by simp
  have "parse U r (concat (map fieldLine (f # fs))) =
      (r'\<lparr>Headers := Some (h'(key \<mapsto> joinComma ((e @ '', '' @ v) # map fieldValue fs)))\<rparr>,
       int (length (fieldLine f)) + int (length (concat (map fieldLine fs))), None)"
    unfolding cc step ih by simp
  also have "\<dots> = (r\<lparr>Headers := Some (h(key \<mapsto> joinComma (e # map fieldValue (f # fs))))\<rparr>,
       int (length (concat (map fieldLine (f # fs)))), None)"
    unfolding jc hh rr cc by simp
  finally show ?case .
qed

text \<open>
  C5. Take \<open>N \<ge> 1\<close> valid field lines \<open>name ":" OWS value OWS CRLF\<close>, with any optional
  white space around each value, whose names all lower-case to the same \<open>key\<close>, with the
  values \<open>v1 .. vN\<close>, and a Request in the header state whose map has no entry for
  \<open>key\<close>. \<open>Request.parse\<close> on the \<open>N\<close> lines consumes all of them without error and
  leaves the header map with the one entry \<open>key \<mapsto> v1 + ", " + ... + ", " + vN\<close>, in arrival
  order, and every other entry as it was.
\<close>

theorem repeated_field_lines_combine:
  assumes "fs \<noteq> []"
    and "\<forall>f \<in> set fs. validField key f"
    and "state r = requestStateParsingHeaders"
    and "(case Headers r of None \<Rightarrow> NewHeaders | Some h \<Rightarrow> h) = h" and "h key = None"
  shows "parse U r (concat (map fieldLine fs)) =
           (r\<lparr>Headers := Some (h(key \<mapsto> joinComma (map fieldValue fs)))\<rparr>,
            int (length (concat (map fieldLine fs))), None)"
proof -
  from assms(1) obtain f rest where fs: "fs = f # rest" by (cases fs) auto
  define v where "v = fieldValue f"
  from assms(2) fs have vf: "validField key f" and rest: "\<forall>f \<in> set rest. validField key f"
    by auto
  define h' where "h' = h(key \<mapsto> v)"
  define r' where "r' = r\<lparr>Headers := Some h'\<rparr>"
  have step: "parse U r (fieldLine f @ concat (map fieldLine rest)) =
     (case parse U r' (concat (map fieldLine rest)) of
        (r'', n, e) \<Rightarrow> (r'', int (length (fieldLine f)) + n, e))"
    using parse_fieldLine[OF vf assms(3), of U "concat (map fieldLine rest)"]
    by (simp add: assms(4,5) r'_def h'_def v_def)
  have "parse U r' (concat (map fieldLine rest)) =
           (r'\<lparr>Headers := Some (h'(key \<mapsto> joinComma (v # map fieldValue rest)))\<rparr>,
            int (length (concat (map fieldLine rest))), None)"
  proof (rule parse_fieldLines_present[OF rest, of r' h' v])
    show "state r' = requestStateParsingHeaders" by (simp add: r'_def assms(3))
    show "Headers r' = Some h'" by (simp add: r'_def)
    show "h' key = Some v" by (simp add: h'_def)
  qed
  then have "parse U r (fieldLine f @ concat (map fieldLine rest)) =
           (r'\<lparr>Headers := Some (h'(key \<mapsto> joinComma (v # map fieldValue rest)))\<rparr>,
            int (length (fieldLine f)) + int (length (concat (map fieldLine rest))), None)"
    unfolding step by simp
  moreover have "h'(key \<mapsto> joinComma (v # map fieldValue rest)) = h(key \<mapsto> joinComma (v # map fieldValue rest))"
    by (simp add: h'_def)
  moreover have "\<And>X. r'\<lparr>Headers := X\<rparr> = r\<lparr>Headers := X\<rparr>" by (simp add: r'_def)
  ultimately show ?thesis
    unfolding fs by (simp add: v_def del: joinComma.simps)
qed


theorem repeated_field_lines_combine_witness:
  "list_all (validField ''my-list'')
     [\<lparr>fieldName = ''My-List'', owsBefore = '' '', fieldValue = ''item1'', owsAfter = []\<rparr>,
      \<lparr>fieldName = ''MY-LIST'', owsBefore = ''   '', fieldValue = ''item2'', owsAfter = ''   ''\<rparr>,
      \<lparr>fieldName = ''my-list'', owsBefore = [], fieldValue = ''item3'', owsAfter = [CHR 0x09]\<rparr>]
   \<and> parse U0 (newRequest\<lparr>state := requestStateParsingHeaders\<rparr>)
         (''My-List: item1'' @ CRLF @ ''MY-LIST:   item2   '' @ CRLF
            @ ''my-list:item3'' @ [CHR 0x09] @ CRLF) =
       (newRequest\<lparr>state := requestStateParsingHeaders,
                    Headers := Some [''my-list'' \<mapsto> ''item1, item2, item3'']\<rparr>, 53, None)"
proof -
  let ?fs = "[\<lparr>fieldName = ''My-List'', owsBefore = '' '', fieldValue = ''item1'', owsAfter = []\<rparr>,
      \<lparr>fieldName = ''MY-LIST'', owsBefore = ''   '', fieldValue = ''item2'', owsAfter = ''   ''\<rparr>,
      \<lparr>fieldName = ''my-list'', owsBefore = [], fieldValue = ''item3'', owsAfter = [CHR 0x09]\<rparr>]"
  let ?r = "newRequest\<lparr>state := requestStateParsingHeaders\<rparr>"
  have h1: "?fs \<noteq> []" by simp
  have h2: "\<forall>f \<in> set ?fs. validField ''my-list'' f"
    by (simp add: validField_def OWS_def validName_def validValue_def isASCII_def isTokenChar_def
          asciiSpace_def lowerByte_upper lowerByte_other less_eq_char_def)
  have h3: "state ?r = requestStateParsingHeaders" by simp
  have h4: "(case Headers ?r of None \<Rightarrow> NewHeaders | Some h \<Rightarrow> h) = Map.empty"
    by (simp add: newRequest_def NewHeaders_def)
  have h5: "(Map.empty :: Headers) ''my-list'' = None" by simp
  from h2 have h2': "list_all (validField ''my-list'') ?fs"
    unfolding list_all_iff .
  show ?thesis
    using h2' repeated_field_lines_combine[OF h1 h2 h3 h4 h5, of U0]
    by (simp add: fieldLine_def newRequest_def CRLF_def)
qed

section \<open>The three phases of the response writer\<close>

lemma length_run [simp]: "length (run wr W cs) = length cs"
  by (induction cs arbitrary: W) (auto split: prod.splits)







end
